theory Spec2Isabelle
  imports Main "HOL-Library.Word"
begin

section \<open>The bio submitter of kvdo (vdo/kernel/ioSubmitter.c)\<close>

text \<open>
  The C types: \<open>unsigned int\<close> is a 32-bit word, \<open>PhysicalBlockNumber\<close> and
  \<open>sector_t\<close> are 64-bit words. Arithmetic on them wraps around. A division
  whose divisor is zero has no defined result in C; the functions that divide
  return \<open>None\<close> there.
\<close>

type_synonym PhysicalBlockNumber = "64 word"
type_synonym sector_t = "64 word"
type_synonym kvio_ptr = nat

subsection \<open>The data of a bio queue\<close>

text \<open>
  \<open>struct bioQueueData\<close>: the work queue of the thread (the work items that were
  enqueued and have not run yet, oldest first; a KVIO's work item is embedded in the
  KVIO, so an item is named by the address of its KVIO), the map from sector numbers to
  KVIOs, and the number of the queue. The plug and the mutex carry no data.
\<close>

record BioQueueData =
  queue :: "kvio_ptr list"
  map_bq :: "sector_t \<rightharpoonup> kvio_ptr"
  queueNumber :: "32 word"

record IOSubmitter =
  numBioQueuesUsed :: "32 word"
  bioQueueRotationInterval :: "32 word"
  bioQueueRotor :: "32 word"
  bioQueueData :: "BioQueueData list"

subsection \<open>Choosing a queue\<close>

text \<open>
  \<open>bioQueueNumberForPBN\<close>: the product of the two \<open>unsigned int\<close> fields is
  computed in 32 bits, then converted to 64 bits for the remainder and the division
  with the 64-bit block number; the quotient is converted back to \<open>unsigned int\<close>.
\<close>

definition bioQueueNumberForPBN :: "IOSubmitter \<Rightarrow> PhysicalBlockNumber \<Rightarrow> 32 word option" where
  "bioQueueNumberForPBN ioSubmitter pbn =
     (let modulus = numBioQueuesUsed ioSubmitter * bioQueueRotationInterval ioSubmitter
      in if modulus = 0 \<or> bioQueueRotationInterval ioSubmitter = 0 then None
         else Some (ucast ((pbn mod ucast modulus)
                           div ucast (bioQueueRotationInterval ioSubmitter))))"

text \<open>
  \<open>advanceBioRotor\<close>: the rotor is read, then incremented (wrapping at \<open>2^32\<close>);
  the value read is reduced and divided in 32 bits. The result is the index and the
  submitter with the rotor advanced.
\<close>

definition advanceBioRotor :: "IOSubmitter \<Rightarrow> 32 word option \<times> IOSubmitter" where
  "advanceBioRotor bioData =
     (let rotor = bioQueueRotor bioData;
          bioData' = bioData\<lparr>bioQueueRotor := rotor + 1\<rparr>;
          modulus = numBioQueuesUsed bioData * bioQueueRotationInterval bioData
      in if modulus = 0 \<or> bioQueueRotationInterval bioData = 0 then (None, bioData')
         else (Some ((rotor mod modulus) div bioQueueRotationInterval bioData), bioData'))"

text \<open>
  \<open>bioQueueDataForPBN\<close>: the address of the element of the array at the computed
  index. An index outside the array is an error of the model (\<open>None\<close>).
\<close>

definition bioQueueDataForPBN :: "IOSubmitter \<Rightarrow> PhysicalBlockNumber \<Rightarrow> nat option" where
  "bioQueueDataForPBN ioSubmitter pbn =
     (case bioQueueNumberForPBN ioSubmitter pbn of
        None \<Rightarrow> None
      | Some bioQueueIndex \<Rightarrow>
          if unat bioQueueIndex < length (bioQueueData ioSubmitter)
          then Some (unat bioQueueIndex) else None)"

text \<open>
  \<open>enqueueBioWorkItem\<close>: the work item goes to the queue the rotor chooses. The
  result is the chosen index and the submitter afterwards.
\<close>

definition enqueueBioWorkItem :: "IOSubmitter \<Rightarrow> kvio_ptr \<Rightarrow> (32 word \<times> IOSubmitter) option" where
  "enqueueBioWorkItem ioSubmitter workItem =
     (case advanceBioRotor ioSubmitter of
        (None, _) \<Rightarrow> None
      | (Some bioQueueIndex, ioSubmitter') \<Rightarrow>
          if unat bioQueueIndex < length (bioQueueData ioSubmitter')
          then Some (bioQueueIndex,
                     ioSubmitter'\<lparr>bioQueueData :=
                       (bioQueueData ioSubmitter')[unat bioQueueIndex :=
                          (bioQueueData ioSubmitter' ! unat bioQueueIndex)
                            \<lparr>queue := queue (bioQueueData ioSubmitter' ! unat bioQueueIndex) @ [workItem]\<rparr>]\<rparr>)
          else None)"

text \<open>
  The specification's routing formula, on unbounded natural numbers:
  \<open>index = (pbn mod (workerCount * rotationInterval)) / rotationInterval\<close>.
\<close>

definition workerForPBN_spec :: "nat \<Rightarrow> nat \<Rightarrow> nat \<Rightarrow> nat" where
  "workerForPBN_spec workerCount rotationInterval pbn =
     (pbn mod (workerCount * rotationInterval)) div rotationInterval"


text \<open>
  The queue array of a submitter that \<open>makeIOSubmitter\<close> has just built: one element
  per thread, numbered from 0, with an empty work queue and an empty map.
\<close>

definition freshBioQueues :: "nat \<Rightarrow> BioQueueData list" where
  "freshBioQueues n =
     map (\<lambda>i. \<lparr>queue = [], map_bq = Map.empty, queueNumber = of_nat i\<rparr>) [0..<n]"

subsection \<open>Bios and KVIOs\<close>

text \<open>
  The actions of the bio queue's action table.
\<close>

datatype BioQAction =
    BIO_Q_ACTION_COMPRESSED_DATA
  | BIO_Q_ACTION_DATA
  | BIO_Q_ACTION_FLUSH
  | BIO_Q_ACTION_HIGH
  | BIO_Q_ACTION_METADATA
  | BIO_Q_ACTION_READCACHE
  | BIO_Q_ACTION_VERIFY

datatype data_dir = READ | WRITE

datatype VIOType =
    VIO_TYPE_BLOCK_MAP
  | VIO_TYPE_RECOVERY_JOURNAL
  | VIO_TYPE_SLAB_JOURNAL
  | VIO_TYPE_OTHER

text \<open>
  A bio, with what this file reads or writes of it: its first sector
  (\<open>getBioSector\<close>), its direction (\<open>bio_data_dir\<close>), the sync flag of its operation
  flags and the KVIO it belongs to (\<open>bi_private\<close>). The link \<open>bi_next\<close> is the
  position of the bio in the list that holds it.
\<close>

record BIO =
  bi_sector :: sector_t
  bi_rw :: data_dir
  bi_sync :: bool
  bi_private :: kvio_ptr

text \<open>
  A KVIO: the bio to submit, the list of bios merged under this KVIO
  (\<open>struct bio_list\<close>, head first), the action of its work item, whether it is a data
  KVIO (what \<open>isData\<close> returns for it), the type and the physical block number of its
  VIO. KVIOs live in a store indexed by their addresses, since the map of a bio queue
  holds addresses of KVIOs whose lists change after they were put there.
\<close>

record KVIO =
  bioToSubmit :: BIO
  biosMerged :: "BIO list"
  action :: BioQAction
  isData :: bool
  vioType :: VIOType
  physical :: PhysicalBlockNumber

type_synonym kvio_store = "kvio_ptr \<Rightarrow> KVIO"

text \<open>
  The operations of \<open>struct bio_list\<close> (linux/bio.h) on the list of its bios:
  the head is the first element and the tail the last one.
\<close>

abbreviation (input) bio_list_empty :: "BIO list \<Rightarrow> bool" where
  "bio_list_empty bl \<equiv> bl = []"

abbreviation (input) bio_list_init :: "BIO list" where
  "bio_list_init \<equiv> []"

abbreviation (input) bio_list_add :: "BIO list \<Rightarrow> BIO \<Rightarrow> BIO list" where
  "bio_list_add bl bio \<equiv> bl @ [bio]"

abbreviation (input) bio_list_merge :: "BIO list \<Rightarrow> BIO list \<Rightarrow> BIO list" where
  "bio_list_merge bl bl2 \<equiv> bl @ bl2"

abbreviation (input) bio_list_merge_head :: "BIO list \<Rightarrow> BIO list \<Rightarrow> BIO list" where
  "bio_list_merge_head bl bl2 \<equiv> bl2 @ bl"

subsection \<open>The map of a bio queue\<close>

text \<open>
  Modelled from the spec: the integer map (\<open>IntMap\<close>, whose code is not part of the
  sources) is a mapping from sector to request. A lookup of an absent key gives the
  null pointer, removing an absent key changes nothing, and an insertion may fail, in
  which case no entry is recorded. The result code of each insertion is given from
  outside (\<open>UDS_SUCCESS\<close> when it succeeds); with \<open>update\<close> set, an insertion
  replaces the value of a key that is present.
\<close>

type_synonym IntMap = "sector_t \<rightharpoonup> kvio_ptr"

definition UDS_SUCCESS :: int where
  "UDS_SUCCESS = 0"


definition intMapGet :: "IntMap \<Rightarrow> sector_t \<Rightarrow> kvio_ptr option" where
  "intMapGet m key = m key"

definition intMapRemove :: "IntMap \<Rightarrow> sector_t \<Rightarrow> IntMap" where
  "intMapRemove m key = m(key := None)"

definition intMapPut :: "int \<Rightarrow> IntMap \<Rightarrow> sector_t \<Rightarrow> kvio_ptr \<Rightarrow> bool \<Rightarrow> int \<times> IntMap" where
  "intMapPut result m key newValue update =
     (if result = UDS_SUCCESS
      then (result, if update \<or> m key = None then m(key \<mapsto> newValue) else m)
      else (result, m))"

subsection \<open>Merging\<close>

definition USE_BIOMAP :: bool where
  "USE_BIOMAP = True"

datatype elevator_merge =
    ELEVATOR_NO_MERGE
  | ELEVATOR_FRONT_MERGE
  | ELEVATOR_BACK_MERGE
  | ELEVATOR_DISCARD_MERGE

text \<open>
  \<open>getMergeableLocked\<close>. The number of sectors of a block,
  \<open>VDO_SECTORS_PER_BLOCK\<close>, is a constant that the sources do not define: it is the
  first parameter of every function that uses it. The subtraction and the addition
  wrap around, as \<open>sector_t\<close> arithmetic does.
\<close>

definition getMergeableLocked ::
  "sector_t \<Rightarrow> kvio_store \<Rightarrow> IntMap \<Rightarrow> kvio_ptr \<Rightarrow> elevator_merge \<Rightarrow> kvio_ptr option" where
  "getMergeableLocked sectorsPerBlock h m kvio mergeType =
     (let bio = bioToSubmit (h kvio);
          mergeSector =
            (case mergeType of
               ELEVATOR_BACK_MERGE \<Rightarrow> bi_sector bio - sectorsPerBlock
             | ELEVATOR_FRONT_MERGE \<Rightarrow> bi_sector bio + sectorsPerBlock
             | _ \<Rightarrow> bi_sector bio)
      in case intMapGet m mergeSector of
           None \<Rightarrow> None
         | Some kvioMerge \<Rightarrow>
             if action (h kvio) \<noteq> action (h kvioMerge) then None
             else if bi_rw bio \<noteq> bi_rw (bioToSubmit (h kvioMerge)) then None
             else if bio_list_empty (biosMerged (h kvioMerge)) then None
             else (case mergeType of
                     ELEVATOR_BACK_MERGE \<Rightarrow>
                       if bi_sector (last (biosMerged (h kvioMerge))) \<noteq> mergeSector
                       then None else Some kvioMerge
                   | ELEVATOR_FRONT_MERGE \<Rightarrow>
                       if bi_sector (hd (biosMerged (h kvioMerge))) \<noteq> mergeSector
                       then None else Some kvioMerge
                   | _ \<Rightarrow> Some kvioMerge))"

text \<open>
  The two merging branches of \<open>tryBioMapMerge\<close>. The pair \<open>puts\<close> gives the
  result codes of the two insertions, in order; the code stores them in \<open>result\<close> and
  never looks at them.

  Merging to the tail of \<open>prevKvio\<close>: the key of its tail is removed, the list of the
  KVIO is appended to its list, and it is put under the sectors of its head and of its
  new tail.
\<close>

definition mergeToPrevTail ::
  "int \<times> int \<Rightarrow> kvio_store \<Rightarrow> BioQueueData \<Rightarrow> kvio_ptr \<Rightarrow> kvio_ptr
     \<Rightarrow> kvio_store \<times> BioQueueData" where
  "mergeToPrevTail puts h bqd kvio prevKvio =
     (let m1 = intMapRemove (map_bq bqd) (bi_sector (last (biosMerged (h prevKvio))));
          h1 = h(prevKvio := (h prevKvio)\<lparr>biosMerged :=
                 bio_list_merge (biosMerged (h prevKvio)) (biosMerged (h kvio))\<rparr>);
          (result1, m2) = intMapPut (fst puts) m1
                            (bi_sector (hd (biosMerged (h1 prevKvio)))) prevKvio True;
          (result2, m3) = intMapPut (snd puts) m2
                            (bi_sector (last (biosMerged (h1 prevKvio)))) prevKvio True
      in (h1, bqd\<lparr>map_bq := m3\<rparr>))"

text \<open>
  Merging to the head of \<open>nextKvio\<close>: the key of its head is removed, the list of the
  KVIO is put in front of its list, and it is put under the sectors of its new head and
  of its tail.
\<close>

definition mergeToNextHead ::
  "int \<times> int \<Rightarrow> kvio_store \<Rightarrow> BioQueueData \<Rightarrow> kvio_ptr \<Rightarrow> kvio_ptr
     \<Rightarrow> kvio_store \<times> BioQueueData" where
  "mergeToNextHead puts h bqd kvio nextKvio =
     (let m1 = intMapRemove (map_bq bqd) (bi_sector (hd (biosMerged (h nextKvio))));
          h1 = h(nextKvio := (h nextKvio)\<lparr>biosMerged :=
                 bio_list_merge_head (biosMerged (h nextKvio)) (biosMerged (h kvio))\<rparr>);
          (result1, m2) = intMapPut (fst puts) m1
                            (bi_sector (hd (biosMerged (h1 nextKvio)))) nextKvio True;
          (result2, m3) = intMapPut (snd puts) m2
                            (bi_sector (last (biosMerged (h1 nextKvio)))) nextKvio True
      in (h1, bqd\<lparr>map_bq := m3\<rparr>))"

text \<open>
  \<open>tryBioMapMerge\<close>, on the store of KVIOs and the data of the bio queue. Without
  a candidate the KVIO is put into the map under the sector of its bio, with the
  result code \<open>fst puts\<close>, which is ignored. The result is whether the KVIO was
  merged, the store and the queue data afterwards.
\<close>

definition tryBioMapMerge ::
  "sector_t \<Rightarrow> int \<times> int \<Rightarrow> kvio_store \<Rightarrow> BioQueueData \<Rightarrow> kvio_ptr \<Rightarrow> BIO
     \<Rightarrow> bool \<times> kvio_store \<times> BioQueueData" where
  "tryBioMapMerge sectorsPerBlock puts h bqd kvio bio =
     (let prevKvio = getMergeableLocked sectorsPerBlock h (map_bq bqd) kvio
                       ELEVATOR_BACK_MERGE;
          nextKvio0 = getMergeableLocked sectorsPerBlock h (map_bq bqd) kvio
                        ELEVATOR_FRONT_MERGE;
          nextKvio = (if prevKvio = nextKvio0 then None else nextKvio0)
      in if prevKvio = None \<and> nextKvio = None
         then (let (result, m1) = intMapPut (fst puts) (map_bq bqd) (bi_sector bio) kvio True
               in (False, h, bqd\<lparr>map_bq := m1\<rparr>))
         else if nextKvio = None
              then (True, mergeToPrevTail puts h bqd kvio (the prevKvio))
              else (True, mergeToNextHead puts h bqd kvio (the nextKvio)))"

subsection \<open>Submitting to the device\<close>

text \<open>
  \<open>sendBioToDevice\<close> hands the bio to the device (\<open>generic_make_request\<close>). The
  device is the list of the bios it was handed, oldest first. The assertions of the
  function only log, and its counters are not part of this model.
\<close>

definition sendBioToDevice :: "BIO list \<Rightarrow> BIO \<Rightarrow> BIO list" where
  "sendBioToDevice device bio = device @ [bio]"

text \<open>The loop of \<open>processBioMap\<close> over the detached list, from its head.\<close>

fun sendBios :: "BIO list \<Rightarrow> BIO list \<Rightarrow> BIO list" where
  "sendBios device [] = device"
| "sendBios device (bio # next) = sendBios (sendBioToDevice device bio) next"

text \<open>
  The part of \<open>processBioMap\<close> that runs under the lock of the queue: the two
  removals when the list is not empty, the read of the head of the list and the
  reset of the list. The result is the store, the queue data and the detached list.
\<close>

definition detachBiosMerged ::
  "kvio_store \<Rightarrow> BioQueueData \<Rightarrow> kvio_ptr \<Rightarrow> kvio_store \<times> BioQueueData \<times> BIO list" where
  "detachBiosMerged h bqd kvio =
     (let m1 = (if \<not> bio_list_empty (biosMerged (h kvio))
                then intMapRemove
                       (intMapRemove (map_bq bqd)
                          (bi_sector (hd (biosMerged (h kvio)))))
                       (bi_sector (last (biosMerged (h kvio))))
                else map_bq bqd);
          bios = biosMerged (h kvio);
          h1 = h(kvio := (h kvio)\<lparr>biosMerged := bio_list_init\<rparr>)
      in (h1, bqd\<lparr>map_bq := m1\<rparr>, bios))"

text \<open>
  \<open>processBioMap\<close>, running on the thread of the given queue for the work item of
  the given KVIO.
\<close>

definition processBioMap ::
  "kvio_store \<Rightarrow> BioQueueData \<Rightarrow> BIO list \<Rightarrow> kvio_ptr
     \<Rightarrow> kvio_store \<times> BioQueueData \<times> BIO list" where
  "processBioMap h bqd device kvio =
     (if USE_BIOMAP \<and> isData (h kvio)
      then (let (h1, bqd1, bios) = detachBiosMerged h bqd kvio
            in (h1, bqd1, sendBios device bios))
      else (h, bqd, sendBioToDevice device (bioToSubmit (h kvio))))"

text \<open>
  Modelled from the spec: the work queue (whose code is not part of the sources)
  delivers an enqueued work item to the thread of its queue, which runs the item's
  work function, here \<open>processBioMap\<close>. An item that is not in the queue cannot run.
\<close>

definition runWorkItem ::
  "kvio_store \<Rightarrow> BioQueueData \<Rightarrow> BIO list \<Rightarrow> kvio_ptr
     \<Rightarrow> (kvio_store \<times> BioQueueData \<times> BIO list) option" where
  "runWorkItem h bqd device kvio =
     (if kvio \<in> set (queue bqd)
      then Some (processBioMap h
                   (bqd\<lparr>queue := remove1 kvio (queue bqd)\<rparr>) device kvio)
      else None)"

subsection \<open>The entry point\<close>

text \<open>
  What \<open>submitBio\<close> stores in the KVIO of the bio: the bio to submit, the action of
  the work item (\<open>setupKVIOWork\<close>) and the list of merged bios, initialised and
  given the bio alone.
\<close>

definition setupKVIO :: "kvio_store \<Rightarrow> BIO \<Rightarrow> BioQAction \<Rightarrow> kvio_store" where
  "setupKVIO h bio act =
     h(bi_private bio := (h (bi_private bio))\<lparr>bioToSubmit := bio, action := act,
         biosMerged := bio_list_add bio_list_init bio\<rparr>)"

text \<open>
  The part of \<open>submitBio\<close> that follows the choice of the queue, on the data of
  that queue: the KVIO is set up, a merge is tried for a data KVIO, and the KVIO is
  enqueued when it was not merged.
\<close>

definition submitBioToQueue ::
  "sector_t \<Rightarrow> int \<times> int \<Rightarrow> kvio_store \<Rightarrow> BioQueueData \<Rightarrow> BIO \<Rightarrow> BioQAction
     \<Rightarrow> kvio_store \<times> BioQueueData" where
  "submitBioToQueue sectorsPerBlock puts h bqd bio act =
     (let kvio = bi_private bio;
          h1 = setupKVIO h bio act;
          (merged, h2, bqd2) =
            (if USE_BIOMAP \<and> isData (h1 kvio)
             then tryBioMapMerge sectorsPerBlock puts h1 bqd kvio bio
             else (False, h1, bqd))
      in if \<not> merged
         then (h2, bqd2\<lparr>queue := queue bqd2 @ [kvio]\<rparr>)
         else (h2, bqd2))"

text \<open>
  The layer: the store of KVIOs, the submitter, the MD RAID5 mode of the device
  configuration and the device.
\<close>

record KernelLayer =
  kvios :: kvio_store
  ioSubmitter :: IOSubmitter
  mdRaid5ModeEnabled :: bool
  device :: "BIO list"

text \<open>
  The adjustment of the sync flag in MD RAID5 mode: cleared on the bios of data
  KVIOs, set on those of the recovery journal and of the slab journals.
\<close>

definition adjustSyncFlag :: "KernelLayer \<Rightarrow> KVIO \<Rightarrow> BIO \<Rightarrow> BIO" where
  "adjustSyncFlag layer kvio bio =
     (if mdRaid5ModeEnabled layer
      then (if isData kvio then bio\<lparr>bi_sync := False\<rparr>
            else if vioType kvio = VIO_TYPE_RECOVERY_JOURNAL
                    \<or> vioType kvio = VIO_TYPE_SLAB_JOURNAL
                 then bio\<lparr>bi_sync := True\<rparr>
                 else bio)
      else bio)"

text \<open>
  \<open>submitBio\<close>. The function returns nothing; the result is the layer afterwards,
  or \<open>None\<close> where the choice of the queue divides by zero or leaves the array.
\<close>

definition submitBio ::
  "sector_t \<Rightarrow> int \<times> int \<Rightarrow> KernelLayer \<Rightarrow> BIO \<Rightarrow> BioQAction \<Rightarrow> KernelLayer option" where
  "submitBio sectorsPerBlock puts layer bio act =
     (let kvio = bi_private bio
      in case bioQueueDataForPBN (ioSubmitter layer) (physical (kvios layer kvio)) of
           None \<Rightarrow> None
         | Some n \<Rightarrow>
             (let bio1 = adjustSyncFlag layer (kvios layer kvio) bio;
                  (h1, bqd1) =
                    submitBioToQueue sectorsPerBlock puts (kvios layer)
                      (bioQueueData (ioSubmitter layer) ! n) bio1 act
              in Some (layer\<lparr>kvios := h1,
                         ioSubmitter := (ioSubmitter layer)\<lparr>bioQueueData :=
                           (bioQueueData (ioSubmitter layer))[n := bqd1]\<rparr>\<rparr>)))"

subsection \<open>Sequences of submissions and runs on one bio queue\<close>

text \<open>
  What happens on one bio queue: a bio is submitted to it (with the result codes of
  the insertions of that call), or the work item of a KVIO runs. A state is the store
  of KVIOs, the data of the queue and the device.
\<close>

datatype BioQueueOp =
    SubmitBio BIO BioQAction "int \<times> int"
  | RunWorkItem kvio_ptr

type_synonym bio_queue_state = "kvio_store \<times> BioQueueData \<times> BIO list"

fun stepBioQueue :: "sector_t \<Rightarrow> bio_queue_state \<Rightarrow> BioQueueOp \<Rightarrow> bio_queue_state option" where
  "stepBioQueue sectorsPerBlock (h, bqd, dev) (SubmitBio bio act puts) =
     (let (h1, bqd1) = submitBioToQueue sectorsPerBlock puts h bqd bio act
      in Some (h1, bqd1, dev))"
| "stepBioQueue sectorsPerBlock (h, bqd, dev) (RunWorkItem kvio) =
     runWorkItem h bqd dev kvio"

fun runBioQueue :: "sector_t \<Rightarrow> bio_queue_state \<Rightarrow> BioQueueOp list \<Rightarrow> bio_queue_state option" where
  "runBioQueue sectorsPerBlock s [] = Some s"
| "runBioQueue sectorsPerBlock s (op # ops) =
     (case stepBioQueue sectorsPerBlock s op of
        None \<Rightarrow> None
      | Some s1 \<Rightarrow> runBioQueue sectorsPerBlock s1 ops)"

text \<open>
  The bios that are pending on a queue: those in the lists of the KVIOs whose work
  items are enqueued; and those among them that belong to data KVIOs.
\<close>

definition pendingBios :: "kvio_store \<Rightarrow> BioQueueData \<Rightarrow> BIO list" where
  "pendingBios h bqd = concat (map (\<lambda>k. biosMerged (h k)) (queue bqd))"

definition pendingDataBios :: "kvio_store \<Rightarrow> BioQueueData \<Rightarrow> BIO list" where
  "pendingDataBios h bqd =
     concat (map (\<lambda>k. biosMerged (h k)) (filter (\<lambda>k. isData (h k)) (queue bqd)))"

text \<open>
  A submission is regular when its insertions succeed, its KVIO is not pending on the
  queue (neither enqueued nor the owner of a bio in a pending list) and, for a data
  KVIO, no pending bio of a data KVIO has the sector of its bio. A run of a work item
  is always regular.
\<close>

fun regularOp :: "kvio_store \<Rightarrow> BioQueueData \<Rightarrow> BioQueueOp \<Rightarrow> bool" where
  "regularOp h bqd (SubmitBio bio act puts) =
     (puts = (UDS_SUCCESS, UDS_SUCCESS)
      \<and> bi_private bio \<notin> set (queue bqd)
      \<and> bi_private bio \<notin> set (map bi_private (pendingBios h bqd))
      \<and> (\<not> isData (h (bi_private bio))
           \<or> bi_sector bio \<notin> set (map bi_sector (pendingDataBios h bqd))))"
| "regularOp h bqd (RunWorkItem kvio) = True"

fun regularRun :: "sector_t \<Rightarrow> bio_queue_state \<Rightarrow> BioQueueOp list \<Rightarrow> bool" where
  "regularRun sectorsPerBlock s [] = True"
| "regularRun sectorsPerBlock (h, bqd, dev) (op # ops) =
     (regularOp h bqd op
      \<and> (case stepBioQueue sectorsPerBlock (h, bqd, dev) op of
            None \<Rightarrow> False
          | Some s1 \<Rightarrow> regularRun sectorsPerBlock s1 ops))"

text \<open>
  The invariant of the map of a bio queue. The enqueued KVIOs are distinct. Every
  enqueued data KVIO has a list that is not empty, whose sectors are distinct, and
  the map holds the KVIO under the sector of the head and under the sector of the
  tail of its list. Every entry of the map holds an enqueued data KVIO under the sector
  of the head or of the tail of its list. The lists of two enqueued data KVIOs share
  no sector.
\<close>

definition bioMapInv :: "kvio_store \<Rightarrow> BioQueueData \<Rightarrow> bool" where
  "bioMapInv h bqd \<longleftrightarrow>
     distinct (queue bqd)
   \<and> (\<forall>k \<in> set (queue bqd). isData (h k) \<longrightarrow>
         biosMerged (h k) \<noteq> []
       \<and> distinct (map bi_sector (biosMerged (h k)))
       \<and> map_bq bqd (bi_sector (hd (biosMerged (h k)))) = Some k
       \<and> map_bq bqd (bi_sector (last (biosMerged (h k)))) = Some k)
   \<and> (\<forall>s k. map_bq bqd s = Some k \<longrightarrow>
         k \<in> set (queue bqd) \<and> isData (h k)
       \<and> (s = bi_sector (hd (biosMerged (h k))) \<or> s = bi_sector (last (biosMerged (h k)))))
   \<and> (\<forall>k \<in> set (queue bqd). \<forall>k' \<in> set (queue bqd).
         k \<noteq> k' \<and> isData (h k) \<and> isData (h k') \<longrightarrow>
         set (map bi_sector (biosMerged (h k))) \<inter> set (map bi_sector (biosMerged (h k'))) = {})"

subsection \<open>Example data\<close>

text \<open>
  A write bio at a sector for a KVIO, a store in which every KVIO is a data KVIO
  with no merged bios, and a bio queue with nothing enqueued and an empty map, as
  \<open>makeIOSubmitter\<close> leaves it.
\<close>

definition dataBio :: "sector_t \<Rightarrow> kvio_ptr \<Rightarrow> BIO" where
  "dataBio s k = \<lparr>bi_sector = s, bi_rw = WRITE, bi_sync = False, bi_private = k\<rparr>"

definition idleDataStore :: kvio_store where
  "idleDataStore =
     (\<lambda>k. \<lparr>bioToSubmit = dataBio 0 k, biosMerged = [], action = BIO_Q_ACTION_DATA,
            isData = True, vioType = VIO_TYPE_OTHER, physical = 0\<rparr>)"

definition emptyBioQueue :: BioQueueData where
  "emptyBioQueue = \<lparr>queue = [], map_bq = Map.empty, queueNumber = 0\<rparr>"

subsection \<open>Successive rotor-routed requests\<close>

text \<open>
  A sequence of calls of \<open>enqueueBioWorkItem\<close>, one per work item, each on the
  submitter the call before it left. The result is the list of the chosen indices,
  in the order of the calls, and the submitter afterwards.
\<close>

fun enqueueBioWorkItems ::
  "IOSubmitter \<Rightarrow> kvio_ptr list \<Rightarrow> (32 word list \<times> IOSubmitter) option" where
  "enqueueBioWorkItems s [] = Some ([], s)"
| "enqueueBioWorkItems s (workItem # workItems) =
     (case enqueueBioWorkItem s workItem of
        None \<Rightarrow> None
      | Some (i, s1) \<Rightarrow>
          (case enqueueBioWorkItems s1 workItems of
             None \<Rightarrow> None
           | Some (indices, s2) \<Rightarrow> Some (i # indices, s2)))"

text \<open>The number of natural numbers below \<open>n\<close> that satisfy \<open>P\<close>.\<close>

definition countBelow :: "(nat \<Rightarrow> bool) \<Rightarrow> nat \<Rightarrow> nat" where
  "countBelow P n = length (filter P [0..<n])"

subsection \<open>Building and releasing the submitter\<close>

text \<open>
  What \<open>makeIOSubmitter\<close>, \<open>cleanupIOSubmitter\<close> and \<open>freeIOSubmitter\<close> see of a
  work queue: the pointer \<open>queue\<close> of a \<open>BioQueueData\<close> is \<open>NULL\<close> (\<open>None\<close>) or refers
  to a work queue that runs or that \<open>finishWorkQueue\<close> has stopped; the pointer \<open>map\<close>
  is \<open>NULL\<close> or refers to a map.
\<close>

datatype KvdoWorkQueue = WorkQueueRunning | WorkQueueFinished

record BioQueueFields =
  queuePtr :: "KvdoWorkQueue option"
  mapPtr :: "IntMap option"
  queueNumberField :: "32 word"








definition finishWorkQueue :: "BioQueueFields \<Rightarrow> BioQueueFields" where
  "finishWorkQueue bqd =
     (case queuePtr bqd of
        None \<Rightarrow> bqd
      | Some _ \<Rightarrow> bqd\<lparr>queuePtr := Some WorkQueueFinished\<rparr>)"















section \<open>Routing\<close>

lemma index_below_count:
  fixes p W R M :: nat
  assumes "0 < M" "M \<le> W * R" "0 < R"
  shows "(p mod M) div R < W"
proof -
  have "p mod M < W * R"
    using assms by (meson less_le_trans mod_less_divisor)
  then show ?thesis
    using assms by (simp add: less_mult_imp_div_less mult.commute)
qed

lemma unat_mult_le: "unat (a * b :: 32 word) \<le> unat a * unat b"
  by (simp add: unat_word_ariths)

lemma unat_ucast_32_64: "unat (ucast (w :: 32 word) :: 64 word) = unat w"
proof -
  have "unat w < 2 ^ 32" using unsigned_less[of w] by simp
  then have "unat w < 2 ^ 64" by (rule less_trans) simp
  then show ?thesis by (simp add: unsigned_ucast_eq take_bit_nat_eq_self)
qed

lemma unat_ucast_64_32:
  "unat (x :: 64 word) < 2 ^ 32 \<Longrightarrow> unat (ucast x :: 32 word) = unat x"
  by (simp add: unsigned_ucast_eq take_bit_nat_eq_self)

lemma bioQueueNumberForPBN_unat:
  assumes "numBioQueuesUsed s * bioQueueRotationInterval s \<noteq> 0"
  shows "\<exists>i. bioQueueNumberForPBN s pbn = Some i
             \<and> unat i = (unat pbn mod unat (numBioQueuesUsed s * bioQueueRotationInterval s))
                          div unat (bioQueueRotationInterval s)
             \<and> i < numBioQueuesUsed s"
proof -
  let ?W = "numBioQueuesUsed s" and ?R = "bioQueueRotationInterval s"
  have R0: "?R \<noteq> 0" using assms by auto
  have Rpos: "0 < unat ?R" using R0 by (simp add: unat_gt_0)
  have Mpos: "0 < unat (?W * ?R)" using assms by (simp add: unat_gt_0)
  have b: "(unat pbn mod unat (?W * ?R)) div unat ?R < unat ?W"
    by (rule index_below_count[OF Mpos unat_mult_le Rpos])
  have u: "unat ((pbn mod ucast (?W * ?R)) div ucast ?R)
             = (unat pbn mod unat (?W * ?R)) div unat ?R"
    by (simp add: unat_div unat_mod unat_ucast_32_64)
  have "unat ?W < 2 ^ 32" using unsigned_less[of ?W] by simp
  with b u have "unat ((pbn mod ucast (?W * ?R)) div ucast ?R) < 2 ^ 32" by simp
  then have "unat (ucast ((pbn mod ucast (?W * ?R)) div ucast ?R) :: 32 word)
               = (unat pbn mod unat (?W * ?R)) div unat ?R"
    using u by (simp add: unat_ucast_64_32)
  then show ?thesis
    using assms R0 b by (simp add: bioQueueNumberForPBN_def Let_def word_less_nat_alt)
qed

lemma advanceBioRotor_unat:
  assumes "numBioQueuesUsed s * bioQueueRotationInterval s \<noteq> 0"
  shows "\<exists>i. fst (advanceBioRotor s) = Some i
             \<and> unat i = (unat (bioQueueRotor s)
                            mod unat (numBioQueuesUsed s * bioQueueRotationInterval s))
                          div unat (bioQueueRotationInterval s)
             \<and> i < numBioQueuesUsed s"
proof -
  let ?W = "numBioQueuesUsed s" and ?R = "bioQueueRotationInterval s"
  have R0: "?R \<noteq> 0" using assms by auto
  have Rpos: "0 < unat ?R" using R0 by (simp add: unat_gt_0)
  have Mpos: "0 < unat (?W * ?R)" using assms by (simp add: unat_gt_0)
  have "(unat (bioQueueRotor s) mod unat (?W * ?R)) div unat ?R < unat ?W"
    by (rule index_below_count[OF Mpos unat_mult_le Rpos])
  then show ?thesis
    using assms R0
    by (simp add: advanceBioRotor_def Let_def word_less_nat_alt unat_div unat_mod)
qed

lemma unat_mult_exact:
  "unat (a :: 32 word) * unat (b :: 32 word) < 2 ^ 32 \<Longrightarrow> unat (a * b) = unat a * unat b"
  by (simp add: unat_word_ariths)

lemma modulus_nonzero:
  assumes "1 \<le> (a :: 32 word)" "1 \<le> (b :: 32 word)" "unat a * unat b < 2 ^ 32"
  shows "a * b \<noteq> 0"
proof -
  have "0 < unat a" "0 < unat b"
    using assms(1,2) by (simp_all add: word_le_nat_alt)
  then have "0 < unat (a * b)"
    using assms(3) by (simp add: unat_mult_exact)
  then show ?thesis by (simp add: unat_gt_0)
qed

text \<open>
  C5, as amended. When the product of the number of queues and the rotation interval
  fits in 32 bits, \<open>bioQueueNumberForPBN\<close> returns the index of the specification's
  formula, \<open>(pbn mod (workerCount * rotationInterval)) div rotationInterval\<close>
  computed on natural numbers. With 4 queues and a rotation interval of 8, the
  block numbers 0 and 7 go to queue 0, 8 goes to queue 1 and 32 goes to queue 0.
\<close>

theorem bioQueueNumberForPBN_formula:
  "(1 \<le> numBioQueuesUsed s \<and> 1 \<le> bioQueueRotationInterval s
      \<and> unat (numBioQueuesUsed s) * unat (bioQueueRotationInterval s) < 2 ^ 32
    \<longrightarrow> (\<exists>i. bioQueueNumberForPBN s pbn = Some i
             \<and> unat i = workerForPBN_spec (unat (numBioQueuesUsed s))
                          (unat (bioQueueRotationInterval s)) (unat pbn)))
   \<and> bioQueueNumberForPBN \<lparr>numBioQueuesUsed = 4, bioQueueRotationInterval = 8,
        bioQueueRotor = rotor, bioQueueData = qs\<rparr> 0 = Some 0
   \<and> bioQueueNumberForPBN \<lparr>numBioQueuesUsed = 4, bioQueueRotationInterval = 8,
        bioQueueRotor = rotor, bioQueueData = qs\<rparr> 7 = Some 0
   \<and> bioQueueNumberForPBN \<lparr>numBioQueuesUsed = 4, bioQueueRotationInterval = 8,
        bioQueueRotor = rotor, bioQueueData = qs\<rparr> 8 = Some 1
   \<and> bioQueueNumberForPBN \<lparr>numBioQueuesUsed = 4, bioQueueRotationInterval = 8,
        bioQueueRotor = rotor, bioQueueData = qs\<rparr> 32 = Some 0"
proof -
  have general: "\<exists>i. bioQueueNumberForPBN s pbn = Some i
             \<and> unat i = workerForPBN_spec (unat (numBioQueuesUsed s))
                          (unat (bioQueueRotationInterval s)) (unat pbn)"
    if h: "1 \<le> numBioQueuesUsed s" "1 \<le> bioQueueRotationInterval s"
          "unat (numBioQueuesUsed s) * unat (bioQueueRotationInterval s) < 2 ^ 32"
  proof -
    have nz: "numBioQueuesUsed s * bioQueueRotationInterval s \<noteq> 0"
      by (rule modulus_nonzero[OF h])
    from bioQueueNumberForPBN_unat[OF nz, of pbn] show ?thesis
      by (auto simp: workerForPBN_spec_def unat_mult_exact[OF h(3)])
  qed
  show ?thesis
    using general by (simp add: bioQueueNumberForPBN_def)
qed

theorem bioQueueNumberForPBN_formula_witness:
  "\<exists>i. bioQueueNumberForPBN \<lparr>numBioQueuesUsed = 4, bioQueueRotationInterval = 8,
          bioQueueRotor = 0, bioQueueData = freshBioQueues 4\<rparr> 21 = Some i
       \<and> unat i = workerForPBN_spec 4 8 21 \<and> workerForPBN_spec 4 8 21 = 2"
  using bioQueueNumberForPBN_formula
          [of "\<lparr>numBioQueuesUsed = 4, bioQueueRotationInterval = 8,
                bioQueueRotor = 0, bioQueueData = freshBioQueues 4\<rparr>" 21]
  by (simp add: workerForPBN_spec_def)

text \<open>
  C5 as stated fails where the 32-bit product wraps around: with 3 queues and a
  rotation interval of \<open>2^31\<close> the modulus the code uses is \<open>2^31\<close>, not
  \<open>3 * 2^31\<close>, and block \<open>2^31 + 5\<close> goes to queue 0 where the formula gives 1.
\<close>

theorem bioQueueNumberForPBN_formula_counterexample:
  "(1 :: 32 word) \<le> 3 \<and> (1 :: 32 word) \<le> 2147483648
   \<and> bioQueueNumberForPBN \<lparr>numBioQueuesUsed = 3, bioQueueRotationInterval = 2147483648,
        bioQueueRotor = 0, bioQueueData = freshBioQueues 3\<rparr> 2147483653 = Some 0
   \<and> workerForPBN_spec (unat (3 :: 32 word)) (unat (2147483648 :: 32 word))
        (unat (2147483653 :: 64 word)) = 1"
  by (simp add: bioQueueNumberForPBN_def workerForPBN_spec_def)

text \<open>
  C10, as amended. Whenever the 32-bit product of the number of queues and the
  rotation interval is not zero, the index that \<open>bioQueueNumberForPBN\<close> computes
  for any block number and the index that \<open>advanceBioRotor\<close> computes for any
  rotor value are both below the number of queues; so \<open>bioQueueDataForPBN\<close>, on an
  array of that many elements, selects an element of the array.
\<close>

theorem queue_index_in_range:
  assumes "numBioQueuesUsed s * bioQueueRotationInterval s \<noteq> 0"
  shows "(\<exists>i. bioQueueNumberForPBN s pbn = Some i \<and> i < numBioQueuesUsed s)
       \<and> (\<exists>i. fst (advanceBioRotor s) = Some i \<and> i < numBioQueuesUsed s)
       \<and> (length (bioQueueData s) = unat (numBioQueuesUsed s)
            \<longrightarrow> (\<exists>n. bioQueueDataForPBN s pbn = Some n \<and> n < length (bioQueueData s)))"
proof -
  obtain i where i: "bioQueueNumberForPBN s pbn = Some i" "i < numBioQueuesUsed s"
    using bioQueueNumberForPBN_unat[OF assms, of pbn] by blast
  obtain j where j: "fst (advanceBioRotor s) = Some j" "j < numBioQueuesUsed s"
    using advanceBioRotor_unat[OF assms] by blast
  show ?thesis
    using i j by (simp add: bioQueueDataForPBN_def word_less_nat_alt)
qed

theorem queue_index_in_range_witness:
  "(\<exists>i. bioQueueNumberForPBN \<lparr>numBioQueuesUsed = 4, bioQueueRotationInterval = 8,
           bioQueueRotor = 77, bioQueueData = freshBioQueues 4\<rparr> 1000 = Some i \<and> i < 4)
   \<and> (\<exists>i. fst (advanceBioRotor \<lparr>numBioQueuesUsed = 4, bioQueueRotationInterval = 8,
           bioQueueRotor = 77, bioQueueData = freshBioQueues 4\<rparr>) = Some i \<and> i < 4)
   \<and> (\<exists>n. bioQueueDataForPBN \<lparr>numBioQueuesUsed = 4, bioQueueRotationInterval = 8,
           bioQueueRotor = 77, bioQueueData = freshBioQueues 4\<rparr> 1000 = Some n \<and> n < 4)"
  using queue_index_in_range
          [of "\<lparr>numBioQueuesUsed = 4, bioQueueRotationInterval = 8,
                bioQueueRotor = 77, bioQueueData = freshBioQueues 4\<rparr>" 1000]
  by (simp add: freshBioQueues_def)

text \<open>
  C10 as stated fails where the 32-bit product is zero: with \<open>65536\<close> queues and a
  rotation interval of \<open>65536\<close> both are at least 1, the product wraps to 0, and the
  remainder is a division by zero, so no index is computed.
\<close>

theorem queue_index_in_range_counterexample:
  "(1 :: 32 word) \<le> 65536
   \<and> bioQueueNumberForPBN \<lparr>numBioQueuesUsed = 65536, bioQueueRotationInterval = 65536,
        bioQueueRotor = 0, bioQueueData = freshBioQueues 65536\<rparr> 0 = None
   \<and> fst (advanceBioRotor \<lparr>numBioQueuesUsed = 65536, bioQueueRotationInterval = 65536,
        bioQueueRotor = 0, bioQueueData = freshBioQueues 65536\<rparr>) = None"
  by (simp add: bioQueueNumberForPBN_def advanceBioRotor_def)


section \<open>Merging\<close>

subsection \<open>The lookup and the branches\<close>



lemma sendBios_append: "sendBios dev bios = dev @ bios"
  by (induction bios arbitrary: dev) (simp_all add: sendBioToDevice_def)

lemma getMergeableLocked_back_iff:
  "(getMergeableLocked spb h m kvio ELEVATOR_BACK_MERGE = Some c) =
     (intMapGet m (bi_sector (bioToSubmit (h kvio)) - spb) = Some c
      \<and> action (h c) = action (h kvio)
      \<and> bi_rw (bioToSubmit (h c)) = bi_rw (bioToSubmit (h kvio))
      \<and> biosMerged (h c) \<noteq> []
      \<and> bi_sector (last (biosMerged (h c))) = bi_sector (bioToSubmit (h kvio)) - spb)"
  by (auto simp: getMergeableLocked_def Let_def split: option.splits)

lemma getMergeableLocked_front_iff:
  "(getMergeableLocked spb h m kvio ELEVATOR_FRONT_MERGE = Some c) =
     (intMapGet m (bi_sector (bioToSubmit (h kvio)) + spb) = Some c
      \<and> action (h c) = action (h kvio)
      \<and> bi_rw (bioToSubmit (h c)) = bi_rw (bioToSubmit (h kvio))
      \<and> biosMerged (h c) \<noteq> []
      \<and> bi_sector (hd (biosMerged (h c))) = bi_sector (bioToSubmit (h kvio)) + spb)"
  by (auto simp: getMergeableLocked_def Let_def split: option.splits)


lemma tryBioMapMerge_none:
  assumes "getMergeableLocked spb h (map_bq bq) kvio ELEVATOR_BACK_MERGE = None"
      and "getMergeableLocked spb h (map_bq bq) kvio ELEVATOR_FRONT_MERGE = None"
  shows "tryBioMapMerge spb puts h bq kvio bio =
           (False, h, bq\<lparr>map_bq := (if fst puts = UDS_SUCCESS then (map_bq bq)(bi_sector bio \<mapsto> kvio) else map_bq bq)\<rparr>)"
  using assms by (simp add: tryBioMapMerge_def intMapPut_def)

lemma tryBioMapMerge_back:
  assumes "getMergeableLocked spb h (map_bq bq) kvio ELEVATOR_BACK_MERGE = Some prev"
      and "getMergeableLocked spb h (map_bq bq) kvio ELEVATOR_FRONT_MERGE = None
           \<or> getMergeableLocked spb h (map_bq bq) kvio ELEVATOR_FRONT_MERGE = Some prev"
  shows "tryBioMapMerge spb puts h bq kvio bio = (True, mergeToPrevTail puts h bq kvio prev)"
  using assms by (auto simp add: tryBioMapMerge_def)

lemma tryBioMapMerge_front:
  assumes "getMergeableLocked spb h (map_bq bq) kvio ELEVATOR_FRONT_MERGE = Some next"
      and "getMergeableLocked spb h (map_bq bq) kvio ELEVATOR_BACK_MERGE \<noteq> Some next"
  shows "tryBioMapMerge spb puts h bq kvio bio = (True, mergeToNextHead puts h bq kvio next)"
  using assms by (auto simp add: tryBioMapMerge_def)

lemma setupKVIO_own:
  "biosMerged (setupKVIO h bio act (bi_private bio)) = [bio]"
  "isData (setupKVIO h bio act (bi_private bio)) = isData (h (bi_private bio))"
  "bioToSubmit (setupKVIO h bio act (bi_private bio)) = bio"
  "action (setupKVIO h bio act (bi_private bio)) = act"
  by (simp_all add: setupKVIO_def)

lemma setupKVIO_other: "k \<noteq> bi_private bio \<Longrightarrow> setupKVIO h bio act k = h k"
  by (simp add: setupKVIO_def)

lemma submitBioToQueue_data:
  assumes "isData (h (bi_private bio))"
  shows "submitBioToQueue spb puts h bq bio act =
     (case tryBioMapMerge spb puts (setupKVIO h bio act) bq (bi_private bio) bio of
        (merged, h2, bq2) \<Rightarrow>
          if merged then (h2, bq2) else (h2, bq2\<lparr>queue := queue bq2 @ [bi_private bio]\<rparr>))"
  using assms
  by (simp add: submitBioToQueue_def setupKVIO_own USE_BIOMAP_def Let_def split: prod.splits)

lemma submitBioToQueue_not_data:
  assumes "\<not> isData (h (bi_private bio))"
  shows "submitBioToQueue spb puts h bq bio act =
           (setupKVIO h bio act, bq\<lparr>queue := queue bq @ [bi_private bio]\<rparr>)"
  using assms by (simp add: submitBioToQueue_def setupKVIO_own Let_def)

lemma mergeToPrevTail_ok:
  "mergeToPrevTail (UDS_SUCCESS, UDS_SUCCESS) h bq kvio prev =
     (h(prev := (h prev)\<lparr>biosMerged := biosMerged (h prev) @ biosMerged (h kvio)\<rparr>),
      bq\<lparr>map_bq := ((map_bq bq)(bi_sector (last (biosMerged (h prev))) := None))
            (bi_sector (hd (biosMerged (h prev) @ biosMerged (h kvio))) \<mapsto> prev,
             bi_sector (last (biosMerged (h prev) @ biosMerged (h kvio))) \<mapsto> prev)\<rparr>)"
  by (simp add: mergeToPrevTail_def intMapPut_def intMapRemove_def Let_def)

lemma mergeToNextHead_ok:
  "mergeToNextHead (UDS_SUCCESS, UDS_SUCCESS) h bq kvio next =
     (h(next := (h next)\<lparr>biosMerged := biosMerged (h kvio) @ biosMerged (h next)\<rparr>),
      bq\<lparr>map_bq := ((map_bq bq)(bi_sector (hd (biosMerged (h next))) := None))
            (bi_sector (hd (biosMerged (h kvio) @ biosMerged (h next))) \<mapsto> next,
             bi_sector (last (biosMerged (h kvio) @ biosMerged (h next))) \<mapsto> next)\<rparr>)"
  by (simp add: mergeToNextHead_def intMapPut_def intMapRemove_def Let_def)

lemma submitBioToQueue_none:
  assumes "isData (h (bi_private bio))"
      and "getMergeableLocked spb (setupKVIO h bio act) (map_bq bq) (bi_private bio) ELEVATOR_BACK_MERGE = None"
      and "getMergeableLocked spb (setupKVIO h bio act) (map_bq bq) (bi_private bio) ELEVATOR_FRONT_MERGE = None"
  shows "submitBioToQueue spb (UDS_SUCCESS, UDS_SUCCESS) h bq bio act =
           (setupKVIO h bio act,
            bq\<lparr>map_bq := (map_bq bq)(bi_sector bio \<mapsto> bi_private bio),
               queue := queue bq @ [bi_private bio]\<rparr>)"
  using assms(1) tryBioMapMerge_none[OF assms(2,3)]
  by (simp add: submitBioToQueue_data)

lemma submitBioToQueue_back:
  assumes "isData (h (bi_private bio))"
      and "getMergeableLocked spb (setupKVIO h bio act) (map_bq bq) (bi_private bio) ELEVATOR_BACK_MERGE = Some prev"
      and "getMergeableLocked spb (setupKVIO h bio act) (map_bq bq) (bi_private bio) ELEVATOR_FRONT_MERGE = None
           \<or> getMergeableLocked spb (setupKVIO h bio act) (map_bq bq) (bi_private bio) ELEVATOR_FRONT_MERGE = Some prev"
  shows "submitBioToQueue spb (UDS_SUCCESS, UDS_SUCCESS) h bq bio act =
           ((setupKVIO h bio act)(prev := (setupKVIO h bio act prev)
               \<lparr>biosMerged := biosMerged (setupKVIO h bio act prev) @ [bio]\<rparr>),
            bq\<lparr>map_bq := ((map_bq bq)(bi_sector (last (biosMerged (setupKVIO h bio act prev))) := None))
               (bi_sector (hd (biosMerged (setupKVIO h bio act prev) @ [bio])) \<mapsto> prev,
                bi_sector bio \<mapsto> prev)\<rparr>)"
  using assms(1) tryBioMapMerge_back[OF assms(2,3)]
  by (simp add: submitBioToQueue_data mergeToPrevTail_ok setupKVIO_own)

lemma submitBioToQueue_front:
  assumes "isData (h (bi_private bio))"
      and "getMergeableLocked spb (setupKVIO h bio act) (map_bq bq) (bi_private bio) ELEVATOR_FRONT_MERGE = Some next"
      and "getMergeableLocked spb (setupKVIO h bio act) (map_bq bq) (bi_private bio) ELEVATOR_BACK_MERGE \<noteq> Some next"
  shows "submitBioToQueue spb (UDS_SUCCESS, UDS_SUCCESS) h bq bio act =
           ((setupKVIO h bio act)(next := (setupKVIO h bio act next)
               \<lparr>biosMerged := bio # biosMerged (setupKVIO h bio act next)\<rparr>),
            bq\<lparr>map_bq := ((map_bq bq)(bi_sector (hd (biosMerged (setupKVIO h bio act next))) := None))
               (bi_sector bio \<mapsto> next,
                bi_sector (last (bio # biosMerged (setupKVIO h bio act next))) \<mapsto> next)\<rparr>)"
  using assms(1) tryBioMapMerge_front[OF assms(2,3)]
  by (simp add: submitBioToQueue_data mergeToNextHead_ok setupKVIO_own)


text \<open>
  C3. For a back merge and for a front merge, \<open>getMergeableLocked\<close> returns a
  KVIO exactly when the map holds that KVIO at the adjacent sector (the sector of the
  request's bio minus, respectively plus, the sectors of a block), the action of its
  work item is the request's, the direction of its bio is the request's, its list of
  merged bios is not empty, and the sector of the tail (back merge) or of the head
  (front merge) of that list is the adjacent sector. Otherwise it returns the null
  pointer.
\<close>

theorem getMergeableLocked_candidate:
  "((getMergeableLocked spb h m kvio ELEVATOR_BACK_MERGE = Some c) =
     (intMapGet m (bi_sector (bioToSubmit (h kvio)) - spb) = Some c
      \<and> action (h c) = action (h kvio)
      \<and> bi_rw (bioToSubmit (h c)) = bi_rw (bioToSubmit (h kvio))
      \<and> biosMerged (h c) \<noteq> []
      \<and> bi_sector (last (biosMerged (h c))) = bi_sector (bioToSubmit (h kvio)) - spb))
   \<and> ((getMergeableLocked spb h m kvio ELEVATOR_FRONT_MERGE = Some c) =
     (intMapGet m (bi_sector (bioToSubmit (h kvio)) + spb) = Some c
      \<and> action (h c) = action (h kvio)
      \<and> bi_rw (bioToSubmit (h c)) = bi_rw (bioToSubmit (h kvio))
      \<and> biosMerged (h c) \<noteq> []
      \<and> bi_sector (hd (biosMerged (h c))) = bi_sector (bioToSubmit (h kvio)) + spb))"
  using getMergeableLocked_back_iff[of spb h m kvio c]
        getMergeableLocked_front_iff[of spb h m kvio c]
  by (rule conjI)

subsection \<open>Running a work item\<close>

text \<open>
  C7. For a data KVIO, \<open>processBioMap\<close> first runs the part under the lock, which
  does not touch the device: it removes the sector of the head and the sector of the
  tail of the KVIO's list from the map (every other key keeps its value, and a map that
  held neither key is unchanged) and resets the list of the KVIO to empty; only then
  are the bios of the detached list handed to the device, in the order of the list.
\<close>

theorem processBioMap_detaches:
  assumes "isData (h kvio)"
  shows "\<exists>h1 bq1.
           detachBiosMerged h bq kvio = (h1, bq1, biosMerged (h kvio))
         \<and> processBioMap h bq dev kvio = (h1, bq1, dev @ biosMerged (h kvio))
         \<and> biosMerged (h1 kvio) = []
         \<and> (\<forall>k. k \<noteq> kvio \<longrightarrow> h1 k = h k)
         \<and> queue bq1 = queue bq
         \<and> (biosMerged (h kvio) \<noteq> [] \<longrightarrow>
              map_bq bq1 (bi_sector (hd (biosMerged (h kvio)))) = None
            \<and> map_bq bq1 (bi_sector (last (biosMerged (h kvio)))) = None
            \<and> (\<forall>s. s \<noteq> bi_sector (hd (biosMerged (h kvio)))
                    \<and> s \<noteq> bi_sector (last (biosMerged (h kvio)))
                    \<longrightarrow> map_bq bq1 s = map_bq bq s))
         \<and> (biosMerged (h kvio) = [] \<longrightarrow> map_bq bq1 = map_bq bq)
         \<and> (map_bq bq (bi_sector (hd (biosMerged (h kvio)))) = None
              \<and> map_bq bq (bi_sector (last (biosMerged (h kvio)))) = None
              \<longrightarrow> map_bq bq1 = map_bq bq)"
proof -
  let ?l = "biosMerged (h kvio)"
  let ?m = "if ?l \<noteq> []
            then (map_bq bq)(bi_sector (hd ?l) := None, bi_sector (last ?l) := None)
            else map_bq bq"
  let ?h1 = "h(kvio := (h kvio)\<lparr>biosMerged := []\<rparr>)"
  let ?bq1 = "bq\<lparr>map_bq := ?m\<rparr>"
  have det: "detachBiosMerged h bq kvio = (?h1, ?bq1, ?l)"
    by (simp add: detachBiosMerged_def intMapRemove_def Let_def)
  have run: "processBioMap h bq dev kvio = (?h1, ?bq1, dev @ ?l)"
    using assms by (simp add: processBioMap_def det USE_BIOMAP_def sendBios_append)
  have absent: "map_bq ?bq1 = map_bq bq"
    if "map_bq bq (bi_sector (hd ?l)) = None \<and> map_bq bq (bi_sector (last ?l)) = None"
    using that by (auto simp: fun_eq_iff)
  show ?thesis
    using det run absent
    by (intro exI[where x = ?h1] exI[where x = ?bq1]) simp
qed

theorem processBioMap_detaches_witness:
  "\<exists>h1 bq1.
     processBioMap
       (idleDataStore(1 := (idleDataStore 1)\<lparr>biosMerged := [dataBio 0 1, dataBio 8 2]\<rparr>))
       (emptyBioQueue\<lparr>queue := [1], map_bq := [0 \<mapsto> 1, 8 \<mapsto> 1]\<rparr>) [] 1
       = (h1, bq1, [dataBio 0 1, dataBio 8 2])
   \<and> biosMerged (h1 1) = []
   \<and> map_bq bq1 0 = None \<and> map_bq bq1 8 = None"
proof -
  let ?h = "idleDataStore(1 := (idleDataStore 1)\<lparr>biosMerged := [dataBio 0 1, dataBio 8 2]\<rparr>)"
  have d: "isData (?h 1)" by (simp add: idleDataStore_def)
  from processBioMap_detaches[where h = ?h and kvio = 1 and dev = "[]"
         and bq = "emptyBioQueue\<lparr>queue := [1], map_bq := [0 \<mapsto> 1, 8 \<mapsto> 1]\<rparr>", OF d]
  show ?thesis by (auto simp: dataBio_def)
qed

subsection \<open>Three consecutive requests\<close>




subsection \<open>The invariant of the map\<close>

lemma bioMapInv_distinct: "bioMapInv h bq \<Longrightarrow> distinct (queue bq)"
  unfolding bioMapInv_def by (rule conjunct1)

lemma bioMapInv_group:
  assumes "bioMapInv h bq" "k \<in> set (queue bq)" "isData (h k)"
  shows "biosMerged (h k) \<noteq> []" "distinct (map bi_sector (biosMerged (h k)))"
        "map_bq bq (bi_sector (hd (biosMerged (h k)))) = Some k"
        "map_bq bq (bi_sector (last (biosMerged (h k)))) = Some k"
proof -
  have "\<forall>k \<in> set (queue bq). isData (h k) \<longrightarrow>
         biosMerged (h k) \<noteq> []
       \<and> distinct (map bi_sector (biosMerged (h k)))
       \<and> map_bq bq (bi_sector (hd (biosMerged (h k)))) = Some k
       \<and> map_bq bq (bi_sector (last (biosMerged (h k)))) = Some k"
    using assms(1) unfolding bioMapInv_def by (elim conjE)
  then have "biosMerged (h k) \<noteq> []
       \<and> distinct (map bi_sector (biosMerged (h k)))
       \<and> map_bq bq (bi_sector (hd (biosMerged (h k)))) = Some k
       \<and> map_bq bq (bi_sector (last (biosMerged (h k)))) = Some k"
    using assms(2,3) by blast
  then show "biosMerged (h k) \<noteq> []" "distinct (map bi_sector (biosMerged (h k)))"
        "map_bq bq (bi_sector (hd (biosMerged (h k)))) = Some k"
        "map_bq bq (bi_sector (last (biosMerged (h k)))) = Some k"
    by simp_all
qed

lemma bioMapInv_entry:
  assumes "bioMapInv h bq" "map_bq bq s = Some k"
  shows "k \<in> set (queue bq)" "isData (h k)"
        "s = bi_sector (hd (biosMerged (h k))) \<or> s = bi_sector (last (biosMerged (h k)))"
proof -
  have "\<forall>s k. map_bq bq s = Some k \<longrightarrow>
         k \<in> set (queue bq) \<and> isData (h k)
       \<and> (s = bi_sector (hd (biosMerged (h k))) \<or> s = bi_sector (last (biosMerged (h k))))"
    using assms(1) unfolding bioMapInv_def by (elim conjE)
  then have "k \<in> set (queue bq) \<and> isData (h k)
       \<and> (s = bi_sector (hd (biosMerged (h k))) \<or> s = bi_sector (last (biosMerged (h k))))"
    using assms(2) by blast
  then show "k \<in> set (queue bq)" "isData (h k)"
        "s = bi_sector (hd (biosMerged (h k))) \<or> s = bi_sector (last (biosMerged (h k)))"
    by simp_all
qed

lemma bioMapInv_disjoint:
  assumes "bioMapInv h bq" "k \<in> set (queue bq)" "k' \<in> set (queue bq)" "k \<noteq> k'"
          "isData (h k)" "isData (h k')"
  shows "set (map bi_sector (biosMerged (h k))) \<inter> set (map bi_sector (biosMerged (h k'))) = {}"
proof -
  have "\<forall>k \<in> set (queue bq). \<forall>k' \<in> set (queue bq).
         k \<noteq> k' \<and> isData (h k) \<and> isData (h k') \<longrightarrow>
         set (map bi_sector (biosMerged (h k))) \<inter> set (map bi_sector (biosMerged (h k'))) = {}"
    using assms(1) unfolding bioMapInv_def by (elim conjE)
  then show ?thesis using assms(2-) by blast
qed

lemma bioMapInvI:
  assumes "distinct (queue bq)"
      and "\<And>k. k \<in> set (queue bq) \<Longrightarrow> isData (h k) \<Longrightarrow>
             biosMerged (h k) \<noteq> []
           \<and> distinct (map bi_sector (biosMerged (h k)))
           \<and> map_bq bq (bi_sector (hd (biosMerged (h k)))) = Some k
           \<and> map_bq bq (bi_sector (last (biosMerged (h k)))) = Some k"
      and "\<And>s k. map_bq bq s = Some k \<Longrightarrow>
             k \<in> set (queue bq) \<and> isData (h k)
           \<and> (s = bi_sector (hd (biosMerged (h k))) \<or> s = bi_sector (last (biosMerged (h k))))"
      and "\<And>k k'. k \<in> set (queue bq) \<Longrightarrow> k' \<in> set (queue bq) \<Longrightarrow> k \<noteq> k' \<Longrightarrow>
             isData (h k) \<Longrightarrow> isData (h k') \<Longrightarrow>
             set (map bi_sector (biosMerged (h k))) \<inter> set (map bi_sector (biosMerged (h k'))) = {}"
  shows "bioMapInv h bq"
  unfolding bioMapInv_def using assms by blast

lemma disjoint_mapD:
  "set (map f xs) \<inter> set (map f ys) = {} \<Longrightarrow> x \<in> set xs \<Longrightarrow> y \<in> set ys \<Longrightarrow> f x \<noteq> f y"
  by auto

lemma inv_regroup:
  assumes inv: "bioMapInv g bq" and p: "p \<in> set (queue bq)" "isData (g p)"
      and l': "l' \<noteq> []" "distinct (map bi_sector l')"
      and disj: "\<And>k. k \<in> set (queue bq) \<Longrightarrow> k \<noteq> p \<Longrightarrow> isData (g k) \<Longrightarrow>
                   set (map bi_sector (biosMerged (g k))) \<inter> set (map bi_sector l') = {}"
      and m': "\<And>s. m' s = (if s = bi_sector (hd l') \<or> s = bi_sector (last l') then Some p
                           else if map_bq bq s = Some p then None else map_bq bq s)"
  shows "bioMapInv (g(p := (g p)\<lparr>biosMerged := l'\<rparr>)) (bq\<lparr>map_bq := m'\<rparr>)"
proof (rule bioMapInvI)
  let ?g = "g(p := (g p)\<lparr>biosMerged := l'\<rparr>)"
  let ?bq = "bq\<lparr>map_bq := m'\<rparr>"
  show "distinct (queue ?bq)" using bioMapInv_distinct[OF inv] by simp
  { fix k assume k: "k \<in> set (queue ?bq)" "isData (?g k)"
    show "biosMerged (?g k) \<noteq> [] \<and> distinct (map bi_sector (biosMerged (?g k)))
          \<and> map_bq ?bq (bi_sector (hd (biosMerged (?g k)))) = Some k
          \<and> map_bq ?bq (bi_sector (last (biosMerged (?g k)))) = Some k"
    proof (cases "k = p")
      case True
      then show ?thesis using l' by (simp add: m')
    next
      case False
      then have kq: "k \<in> set (queue bq)" "isData (g k)" using k by simp_all
      note grp = bioMapInv_group[OF inv kq]
      have d: "set (map bi_sector (biosMerged (g k))) \<inter> set (map bi_sector l') = {}"
        by (rule disj[OF kq(1) False kq(2)])
      have ne: "bi_sector (hd (biosMerged (g k))) \<noteq> bi_sector (hd l')"
               "bi_sector (hd (biosMerged (g k))) \<noteq> bi_sector (last l')"
               "bi_sector (last (biosMerged (g k))) \<noteq> bi_sector (hd l')"
               "bi_sector (last (biosMerged (g k))) \<noteq> bi_sector (last l')"
        using grp(1) l'(1) by (simp_all add: disjoint_mapD[OF d])
      show ?thesis using False grp ne by (simp add: m')
    qed }
  { fix s k assume e: "map_bq ?bq s = Some k"
    show "k \<in> set (queue ?bq) \<and> isData (?g k)
          \<and> (s = bi_sector (hd (biosMerged (?g k))) \<or> s = bi_sector (last (biosMerged (?g k))))"
    proof (cases "s = bi_sector (hd l') \<or> s = bi_sector (last l')")
      case True
      then have "k = p" using e by (simp add: m')
      then show ?thesis using True p by simp
    next
      case False
      then have old: "map_bq bq s = Some k" "k \<noteq> p"
        using e by (auto simp: m' split: if_splits)
      show ?thesis using bioMapInv_entry[OF inv old(1)] old(2) by simp
    qed }
  { fix k k' assume a: "k \<in> set (queue ?bq)" "k' \<in> set (queue ?bq)" "k \<noteq> k'"
       "isData (?g k)" "isData (?g k')"
    show "set (map bi_sector (biosMerged (?g k))) \<inter> set (map bi_sector (biosMerged (?g k'))) = {}"
    proof (cases "k = p")
      case True
      then have "k' \<noteq> p" using a(3) by simp
      then show ?thesis using True disj[of k'] a by (simp add: Int_commute)
    next
      case False
      show ?thesis
      proof (cases "k' = p")
        case True
        then show ?thesis using False disj[of k] a by simp
      next
        case k'p: False
        then show ?thesis using False a bioMapInv_disjoint[OF inv, of k k'] by simp
      qed
    qed }
qed

lemma bioMapInv_setup:
  assumes "bioMapInv h bq" "bi_private bio \<notin> set (queue bq)"
  shows "bioMapInv (setupKVIO h bio act) bq"
proof -
  have same: "\<And>k. k \<in> set (queue bq) \<Longrightarrow> setupKVIO h bio act k = h k"
    using assms(2) by (auto simp: setupKVIO_def)
  show ?thesis
  proof (rule bioMapInvI)
    show "distinct (queue bq)" by (rule bioMapInv_distinct[OF assms(1)])
  next
    fix k assume "k \<in> set (queue bq)" "isData (setupKVIO h bio act k)"
    then show "biosMerged (setupKVIO h bio act k) \<noteq> []
           \<and> distinct (map bi_sector (biosMerged (setupKVIO h bio act k)))
           \<and> map_bq bq (bi_sector (hd (biosMerged (setupKVIO h bio act k)))) = Some k
           \<and> map_bq bq (bi_sector (last (biosMerged (setupKVIO h bio act k)))) = Some k"
      using bioMapInv_group[OF assms(1), of k] by (simp add: same)
  next
    fix s k assume e: "map_bq bq s = Some k"
    note en = bioMapInv_entry[OF assms(1) e]
    show "k \<in> set (queue bq) \<and> isData (setupKVIO h bio act k)
           \<and> (s = bi_sector (hd (biosMerged (setupKVIO h bio act k)))
              \<or> s = bi_sector (last (biosMerged (setupKVIO h bio act k))))"
      using en by (simp add: same[OF en(1)])
  next
    fix k k' assume "k \<in> set (queue bq)" "k' \<in> set (queue bq)" "k \<noteq> k'"
             "isData (setupKVIO h bio act k)" "isData (setupKVIO h bio act k')"
    then show "set (map bi_sector (biosMerged (setupKVIO h bio act k)))
                \<inter> set (map bi_sector (biosMerged (setupKVIO h bio act k'))) = {}"
      using bioMapInv_disjoint[OF assms(1), of k k'] by (simp add: same)
  qed
qed

lemma inv_enqueue_other:
  assumes inv: "bioMapInv g bq" and k: "k \<notin> set (queue bq)" and d: "\<not> isData (g k)"
  shows "bioMapInv g (bq\<lparr>queue := queue bq @ [k]\<rparr>)"
proof (rule bioMapInvI)
  show "distinct (queue (bq\<lparr>queue := queue bq @ [k]\<rparr>))"
    using bioMapInv_distinct[OF inv] k by simp
next
  fix k' assume "k' \<in> set (queue (bq\<lparr>queue := queue bq @ [k]\<rparr>))" "isData (g k')"
  then have "k' \<in> set (queue bq)" "isData (g k')" using d by auto
  from bioMapInv_group[OF inv this]
  show "biosMerged (g k') \<noteq> [] \<and> distinct (map bi_sector (biosMerged (g k')))
      \<and> map_bq (bq\<lparr>queue := queue bq @ [k]\<rparr>) (bi_sector (hd (biosMerged (g k')))) = Some k'
      \<and> map_bq (bq\<lparr>queue := queue bq @ [k]\<rparr>) (bi_sector (last (biosMerged (g k')))) = Some k'"
    by simp
next
  fix s k' assume "map_bq (bq\<lparr>queue := queue bq @ [k]\<rparr>) s = Some k'"
  then have "map_bq bq s = Some k'" by simp
  from bioMapInv_entry[OF inv this]
  show "k' \<in> set (queue (bq\<lparr>queue := queue bq @ [k]\<rparr>)) \<and> isData (g k')
      \<and> (s = bi_sector (hd (biosMerged (g k'))) \<or> s = bi_sector (last (biosMerged (g k'))))"
    by simp
next
  fix k1 k2 assume a: "k1 \<in> set (queue (bq\<lparr>queue := queue bq @ [k]\<rparr>))"
     "k2 \<in> set (queue (bq\<lparr>queue := queue bq @ [k]\<rparr>))" "k1 \<noteq> k2" "isData (g k1)" "isData (g k2)"
  then have "k1 \<in> set (queue bq)" "k2 \<in> set (queue bq)" using d by auto
  from bioMapInv_disjoint[OF inv this a(3,4,5)]
  show "set (map bi_sector (biosMerged (g k1))) \<inter> set (map bi_sector (biosMerged (g k2))) = {}" .
qed

lemma inv_none:
  assumes inv: "bioMapInv g bq" and k: "k \<notin> set (queue bq)" and d: "isData (g k)"
      and l: "biosMerged (g k) = [bio]"
      and fresh: "\<And>k'. k' \<in> set (queue bq) \<Longrightarrow> isData (g k')
                    \<Longrightarrow> bi_sector bio \<notin> bi_sector ` set (biosMerged (g k'))"
  shows "bioMapInv g (bq\<lparr>map_bq := (map_bq bq)(bi_sector bio \<mapsto> k), queue := queue bq @ [k]\<rparr>)"
    (is "bioMapInv g ?bq")
proof (rule bioMapInvI)
  show "distinct (queue ?bq)" using bioMapInv_distinct[OF inv] k by simp
next
  fix k' assume a: "k' \<in> set (queue ?bq)" "isData (g k')"
  show "biosMerged (g k') \<noteq> [] \<and> distinct (map bi_sector (biosMerged (g k')))
      \<and> map_bq ?bq (bi_sector (hd (biosMerged (g k')))) = Some k'
      \<and> map_bq ?bq (bi_sector (last (biosMerged (g k')))) = Some k'"
  proof (cases "k' = k")
    case True
    then show ?thesis by (simp add: l)
  next
    case False
    then have q: "k' \<in> set (queue bq)" using a by simp
    note grp = bioMapInv_group[OF inv q a(2)]
    have "hd (biosMerged (g k')) \<in> set (biosMerged (g k'))"
         "last (biosMerged (g k')) \<in> set (biosMerged (g k'))"
      using grp(1) by simp_all
    then have "bi_sector (hd (biosMerged (g k'))) \<noteq> bi_sector bio"
         "bi_sector (last (biosMerged (g k'))) \<noteq> bi_sector bio"
      using fresh[OF q a(2)] by (metis image_eqI)+
    then show ?thesis using grp by simp
  qed
next
  fix s k' assume e: "map_bq ?bq s = Some k'"
  show "k' \<in> set (queue ?bq) \<and> isData (g k')
      \<and> (s = bi_sector (hd (biosMerged (g k'))) \<or> s = bi_sector (last (biosMerged (g k'))))"
  proof (cases "s = bi_sector bio")
    case True
    then have "k' = k" using e by simp
    then show ?thesis using True d by (simp add: l)
  next
    case False
    then have "map_bq bq s = Some k'" using e by simp
    from bioMapInv_entry[OF inv this] show ?thesis by simp
  qed
next
  fix k1 k2 assume a: "k1 \<in> set (queue ?bq)" "k2 \<in> set (queue ?bq)" "k1 \<noteq> k2" "isData (g k1)" "isData (g k2)"
  show "set (map bi_sector (biosMerged (g k1))) \<inter> set (map bi_sector (biosMerged (g k2))) = {}"
  proof (cases "k1 = k")
    case True
    then have q: "k2 \<in> set (queue bq)" using a by auto
    show ?thesis using fresh[OF q a(5)] True by (simp add: l)
  next
    case False
    then have q1: "k1 \<in> set (queue bq)" using a by auto
    show ?thesis
    proof (cases "k2 = k")
      case True
      show ?thesis using fresh[OF q1 a(4)] True by (simp add: l)
    next
      case k2: False
      then have "k2 \<in> set (queue bq)" using a by auto
      from bioMapInv_disjoint[OF inv q1 this a(3,4,5)] show ?thesis .
    qed
  qed
qed

lemma inv_back:
  assumes inv: "bioMapInv g bq" and p: "p \<in> set (queue bq)" "isData (g p)"
      and fresh: "\<And>k'. k' \<in> set (queue bq) \<Longrightarrow> isData (g k')
                    \<Longrightarrow> bi_sector bio \<notin> bi_sector ` set (biosMerged (g k'))"
  shows "bioMapInv (g(p := (g p)\<lparr>biosMerged := biosMerged (g p) @ [bio]\<rparr>))
           (bq\<lparr>map_bq := ((map_bq bq)(bi_sector (last (biosMerged (g p))) := None))
               (bi_sector (hd (biosMerged (g p) @ [bio])) \<mapsto> p, bi_sector bio \<mapsto> p)\<rparr>)"
proof (rule inv_regroup[OF inv p])
  let ?l = "biosMerged (g p)"
  note grp = bioMapInv_group[OF inv p]
  show "?l @ [bio] \<noteq> []" by simp
  have fp: "bi_sector bio \<notin> bi_sector ` set ?l"
    by (rule fresh[OF p])
  show "distinct (map bi_sector (?l @ [bio]))"
    using grp(2) fp by simp
  show "set (map bi_sector (biosMerged (g k))) \<inter> set (map bi_sector (?l @ [bio])) = {}"
    if "k \<in> set (queue bq)" "k \<noteq> p" "isData (g k)" for k
    using bioMapInv_disjoint[OF inv that(1) p(1) that(2,3) p(2)] fresh[OF that(1,3)] by simp
  fix s
  have hdl: "hd (?l @ [bio]) = hd ?l" using grp(1) by simp
  have only: "map_bq bq s = Some p \<Longrightarrow> s = bi_sector (hd ?l) \<or> s = bi_sector (last ?l)"
    using bioMapInv_entry(3)[OF inv] by blast
  show "(((map_bq bq)(bi_sector (last ?l) := None))
               (bi_sector (hd (?l @ [bio])) \<mapsto> p, bi_sector bio \<mapsto> p)) s =
        (if s = bi_sector (hd (?l @ [bio])) \<or> s = bi_sector (last (?l @ [bio])) then Some p
         else if map_bq bq s = Some p then None else map_bq bq s)"
    using only grp(4) by (auto simp: hdl)
qed

lemma inv_front:
  assumes inv: "bioMapInv g bq" and p: "p \<in> set (queue bq)" "isData (g p)"
      and fresh: "\<And>k'. k' \<in> set (queue bq) \<Longrightarrow> isData (g k')
                    \<Longrightarrow> bi_sector bio \<notin> bi_sector ` set (biosMerged (g k'))"
  shows "bioMapInv (g(p := (g p)\<lparr>biosMerged := bio # biosMerged (g p)\<rparr>))
           (bq\<lparr>map_bq := ((map_bq bq)(bi_sector (hd (biosMerged (g p))) := None))
               (bi_sector bio \<mapsto> p, bi_sector (last (bio # biosMerged (g p))) \<mapsto> p)\<rparr>)"
proof (rule inv_regroup[OF inv p])
  let ?l = "biosMerged (g p)"
  note grp = bioMapInv_group[OF inv p]
  show "bio # ?l \<noteq> []" by simp
  have fp: "bi_sector bio \<notin> bi_sector ` set ?l"
    by (rule fresh[OF p])
  show "distinct (map bi_sector (bio # ?l))"
    using grp(2) fp by simp
  show "set (map bi_sector (biosMerged (g k))) \<inter> set (map bi_sector (bio # ?l)) = {}"
    if "k \<in> set (queue bq)" "k \<noteq> p" "isData (g k)" for k
    using bioMapInv_disjoint[OF inv that(1) p(1) that(2,3) p(2)] fresh[OF that(1,3)] by simp
  fix s
  have lastl: "last (bio # ?l) = last ?l" using grp(1) by simp
  have only: "map_bq bq s = Some p \<Longrightarrow> s = bi_sector (hd ?l) \<or> s = bi_sector (last ?l)"
    using bioMapInv_entry(3)[OF inv] by blast
  show "(((map_bq bq)(bi_sector (hd ?l) := None))
               (bi_sector bio \<mapsto> p, bi_sector (last (bio # ?l)) \<mapsto> p)) s =
        (if s = bi_sector (hd (bio # ?l)) \<or> s = bi_sector (last (bio # ?l)) then Some p
         else if map_bq bq s = Some p then None else map_bq bq s)"
    using only grp(1,3,4) by (auto simp: lastl)
qed

lemma inv_submit:
  assumes inv: "bioMapInv h bq"
      and reg: "regularOp h bq (SubmitBio bio act puts)"
      and res: "submitBioToQueue spb puts h bq bio act = (h', bq')"
  shows "bioMapInv h' bq'"
proof -
  let ?k = "bi_private bio"
  let ?g = "setupKVIO h bio act"
  have puts: "puts = (UDS_SUCCESS, UDS_SUCCESS)" and kq: "?k \<notin> set (queue bq)"
    using reg by simp_all
  have invg: "bioMapInv ?g bq" by (rule bioMapInv_setup[OF inv kq])
  have same: "\<And>k. k \<in> set (queue bq) \<Longrightarrow> ?g k = h k"
    using kq by (auto simp: setupKVIO_def)
  show ?thesis
  proof (cases "isData (h ?k)")
    case False
    then have "\<not> isData (?g ?k)" by (simp add: setupKVIO_own)
    from inv_enqueue_other[OF invg kq this] res False show ?thesis
      by (simp add: submitBioToQueue_not_data)
  next
    case True
    then have "bi_sector bio \<notin> set (map bi_sector (pendingDataBios h bq))"
      using reg by simp
    then have fresh: "\<And>k'. k' \<in> set (queue bq) \<Longrightarrow> isData (?g k')
                    \<Longrightarrow> bi_sector bio \<notin> bi_sector ` set (biosMerged (?g k'))"
      by (auto simp: pendingDataBios_def same)
    let ?prevCand = "getMergeableLocked spb ?g (map_bq bq) ?k ELEVATOR_BACK_MERGE"
    let ?nextCand = "getMergeableLocked spb ?g (map_bq bq) ?k ELEVATOR_FRONT_MERGE"
    consider (noCand) "?prevCand = None" "?nextCand = None"
      | (toPrev) p where "?prevCand = Some p" "?nextCand = None \<or> ?nextCand = Some p"
      | (toNext) n where "?nextCand = Some n" "?prevCand \<noteq> Some n"
      by (cases ?prevCand; cases ?nextCand) auto
    then show ?thesis
    proof cases
      case noCand
      have "bioMapInv ?g (bq\<lparr>map_bq := (map_bq bq)(bi_sector bio \<mapsto> ?k), queue := queue bq @ [?k]\<rparr>)"
        by (rule inv_none[OF invg kq _ _ fresh]) (simp_all add: setupKVIO_own True)
      then show ?thesis
        using res by (simp add: puts submitBioToQueue_none[OF True noCand])
    next
      case toPrev
      have "map_bq bq (bi_sector (bioToSubmit (?g ?k)) - spb) = Some p"
        using toPrev(1) by (simp add: getMergeableLocked_back_iff intMapGet_def)
      note en = bioMapInv_entry[OF invg this]
      show ?thesis
        using res inv_back[OF invg en(1,2) fresh]
        by (simp add: puts submitBioToQueue_back[OF True toPrev])
    next
      case toNext
      have "map_bq bq (bi_sector (bioToSubmit (?g ?k)) + spb) = Some n"
        using toNext(1) by (simp add: getMergeableLocked_front_iff intMapGet_def)
      note en = bioMapInv_entry[OF invg this]
      show ?thesis
        using res inv_front[OF invg en(1,2) fresh]
        by (simp add: puts submitBioToQueue_front[OF True toNext])
    qed
  qed
qed

lemma inv_run:
  assumes inv: "bioMapInv h bq"
      and res: "runWorkItem h bq dev k = Some (h', bq', dev')"
  shows "bioMapInv h' bq'"
proof -
  have kq: "k \<in> set (queue bq)"
    using res by (simp add: runWorkItem_def split: if_splits)
  have dq: "distinct (queue bq)" by (rule bioMapInv_distinct[OF inv])
  have setq: "set (remove1 k (queue bq)) = set (queue bq) - {k}"
    using dq by simp
  show ?thesis
  proof (cases "isData (h k)")
    case False
    then have eq: "h' = h" "bq' = bq\<lparr>queue := remove1 k (queue bq)\<rparr>"
      using res kq by (simp_all add: runWorkItem_def processBioMap_def)
    show ?thesis unfolding eq
    proof (rule bioMapInvI)
      show "distinct (queue (bq\<lparr>queue := remove1 k (queue bq)\<rparr>))" using dq by simp
    next
      fix k' assume "k' \<in> set (queue (bq\<lparr>queue := remove1 k (queue bq)\<rparr>))" "isData (h k')"
      then have "k' \<in> set (queue bq)" "isData (h k')" by (simp_all add: setq)
      from bioMapInv_group[OF inv this]
      show "biosMerged (h k') \<noteq> [] \<and> distinct (map bi_sector (biosMerged (h k')))
          \<and> map_bq (bq\<lparr>queue := remove1 k (queue bq)\<rparr>) (bi_sector (hd (biosMerged (h k')))) = Some k'
          \<and> map_bq (bq\<lparr>queue := remove1 k (queue bq)\<rparr>) (bi_sector (last (biosMerged (h k')))) = Some k'"
        by simp
    next
      fix s k' assume "map_bq (bq\<lparr>queue := remove1 k (queue bq)\<rparr>) s = Some k'"
      then have "map_bq bq s = Some k'" by simp
      from bioMapInv_entry[OF inv this] False
      show "k' \<in> set (queue (bq\<lparr>queue := remove1 k (queue bq)\<rparr>)) \<and> isData (h k')
          \<and> (s = bi_sector (hd (biosMerged (h k'))) \<or> s = bi_sector (last (biosMerged (h k'))))"
        by (auto simp: setq)
    next
      fix k1 k2 assume a: "k1 \<in> set (queue (bq\<lparr>queue := remove1 k (queue bq)\<rparr>))"
        "k2 \<in> set (queue (bq\<lparr>queue := remove1 k (queue bq)\<rparr>))" "k1 \<noteq> k2" "isData (h k1)" "isData (h k2)"
      then have "k1 \<in> set (queue bq)" "k2 \<in> set (queue bq)" by (simp_all add: setq)
      from bioMapInv_disjoint[OF inv this a(3,4,5)]
      show "set (map bi_sector (biosMerged (h k1))) \<inter> set (map bi_sector (biosMerged (h k2))) = {}" .
    qed
  next
    case True
    let ?l = "biosMerged (h k)"
    let ?m = "(map_bq bq)(bi_sector (hd ?l) := None, bi_sector (last ?l) := None)"
    let ?h = "h(k := (h k)\<lparr>biosMerged := []\<rparr>)"
    let ?bq = "bq\<lparr>queue := remove1 k (queue bq), map_bq := ?m\<rparr>"
    note grp = bioMapInv_group[OF inv kq True]
    have eq: "h' = ?h" "bq' = ?bq"
      using res kq True grp(1)
      by (simp_all add: runWorkItem_def processBioMap_def detachBiosMerged_def USE_BIOMAP_def
            intMapRemove_def Let_def)
    have bnd: "hd ?l \<in> set ?l" "last ?l \<in> set ?l" using grp(1) by simp_all
    show ?thesis unfolding eq
    proof (rule bioMapInvI)
      show "distinct (queue ?bq)" using dq by simp
    next
      fix k' assume "k' \<in> set (queue ?bq)" "isData (?h k')"
      then have a: "k' \<in> set (queue bq)" "k' \<noteq> k" "isData (h k')"
        by (auto simp: setq split: if_splits)
      note g' = bioMapInv_group[OF inv a(1,3)]
      have d: "set (map bi_sector (biosMerged (h k'))) \<inter> set (map bi_sector ?l) = {}"
        by (rule bioMapInv_disjoint[OF inv a(1) kq a(2,3) True])
      have "bi_sector (hd (biosMerged (h k'))) \<noteq> bi_sector (hd ?l)"
           "bi_sector (hd (biosMerged (h k'))) \<noteq> bi_sector (last ?l)"
           "bi_sector (last (biosMerged (h k'))) \<noteq> bi_sector (hd ?l)"
           "bi_sector (last (biosMerged (h k'))) \<noteq> bi_sector (last ?l)"
        using g'(1) bnd by (simp_all add: disjoint_mapD[OF d])
      then show "biosMerged (?h k') \<noteq> [] \<and> distinct (map bi_sector (biosMerged (?h k')))
          \<and> map_bq ?bq (bi_sector (hd (biosMerged (?h k')))) = Some k'
          \<and> map_bq ?bq (bi_sector (last (biosMerged (?h k')))) = Some k'"
        using g' a(2) by simp
    next
      fix s k' assume e: "map_bq ?bq s = Some k'"
      then have old: "map_bq bq s = Some k'" "s \<noteq> bi_sector (hd ?l)" "s \<noteq> bi_sector (last ?l)"
        by (auto split: if_splits)
      note en = bioMapInv_entry[OF inv old(1)]
      have "k' \<noteq> k" using en(3) old(2,3) by auto
      then show "k' \<in> set (queue ?bq) \<and> isData (?h k')
          \<and> (s = bi_sector (hd (biosMerged (?h k'))) \<or> s = bi_sector (last (biosMerged (?h k'))))"
        using en by (simp add: setq)
    next
      fix k1 k2 assume "k1 \<in> set (queue ?bq)" "k2 \<in> set (queue ?bq)" "k1 \<noteq> k2"
         "isData (?h k1)" "isData (?h k2)"
      then have a: "k1 \<in> set (queue bq)" "k2 \<in> set (queue bq)" "k1 \<noteq> k2" "isData (h k1)" "isData (h k2)"
          "k1 \<noteq> k" "k2 \<noteq> k"
        by (auto simp: setq split: if_splits)
      from bioMapInv_disjoint[OF inv a(1-5)] a(6,7)
      show "set (map bi_sector (biosMerged (?h k1))) \<inter> set (map bi_sector (biosMerged (?h k2))) = {}"
        by simp
    qed
  qed
qed

lemma inv_runBioQueue:
  assumes "bioMapInv h bq" "regularRun spb (h, bq, dev) ops"
          "runBioQueue spb (h, bq, dev) ops = Some (h', bq', dev')"
  shows "bioMapInv h' bq'"
  using assms
proof (induction ops arbitrary: h bq dev)
  case Nil
  then show ?case by simp
next
  case (Cons op ops)
  from Cons.prems(2) obtain h1 bq1 dev1 where
    st: "stepBioQueue spb (h, bq, dev) op = Some (h1, bq1, dev1)"
    and reg: "regularOp h bq op" "regularRun spb (h1, bq1, dev1) ops"
    by (auto split: option.splits)
  have "bioMapInv h1 bq1"
  proof (cases op)
    case (SubmitBio bio act puts)
    then show ?thesis
      using st reg(1) inv_submit[OF Cons.prems(1), of bio act puts spb h1 bq1]
      by (auto split: prod.splits)
  next
    case (RunWorkItem k)
    then show ?thesis
      using st inv_run[OF Cons.prems(1), of dev k h1 bq1 dev1] by simp
  qed
  moreover have "runBioQueue spb (h1, bq1, dev1) ops = Some (h', bq', dev')"
    using Cons.prems(3) st by simp
  ultimately show ?case using Cons.IH reg(2) by blast
qed

lemma bioMapInv_empty:
  "map_bq bq = Map.empty \<Longrightarrow> queue bq = [] \<Longrightarrow> bioMapInv h bq"
  by (simp add: bioMapInv_def)

lemma interior_sector:
  assumes "distinct (map f l)" "b \<in> set (butlast (tl l))"
  shows "f b \<noteq> f (hd l) \<and> f b \<noteq> f (last l)"
proof (cases l)
  case Nil
  then show ?thesis using assms by simp
next
  case (Cons x xs)
  then have b: "b \<in> set (butlast xs)" using assms(2) by simp
  then have ne: "xs \<noteq> []" by auto
  then have xs: "xs = butlast xs @ [last xs]" by simp
  have "distinct (map f (x # butlast xs @ [last xs]))"
    using assms(1) Cons xs by simp
  moreover have "f b \<in> f ` set (butlast xs)" using b by simp
  ultimately have "f b \<noteq> f x" "f b \<noteq> f (last xs)"
    by auto
  then show ?thesis using Cons ne by simp
qed


text \<open>
  C2, as amended. The bio queue starts with an empty map and nothing enqueued. Every
  submission is regular: its insertions succeed, its KVIO is not pending on the queue,
  and the sector of a data request is not the sector of a pending data bio. Then after
  any sequence of submissions and runs of work items, every KVIO that the map holds has
  a list of merged bios that is not empty, the map holds it under the sector of the
  head and under the sector of the tail of that list and under no other key, and no
  sector of a bio strictly inside the list is a key of the map.
\<close>

theorem bioMap_boundary_keys:
  assumes "map_bq bq0 = Map.empty" and "queue bq0 = []"
      and "regularRun spb (h0, bq0, dev0) ops"
      and "runBioQueue spb (h0, bq0, dev0) ops = Some (h, bq, dev)"
      and "map_bq bq s = Some k"
  shows "biosMerged (h k) \<noteq> []
       \<and> map_bq bq (bi_sector (hd (biosMerged (h k)))) = Some k
       \<and> map_bq bq (bi_sector (last (biosMerged (h k)))) = Some k
       \<and> (s = bi_sector (hd (biosMerged (h k))) \<or> s = bi_sector (last (biosMerged (h k))))
       \<and> (\<forall>b \<in> set (butlast (tl (biosMerged (h k)))). map_bq bq (bi_sector b) = None)"
proof -
  have inv: "bioMapInv h bq"
    by (rule inv_runBioQueue[OF bioMapInv_empty[OF assms(1,2)] assms(3,4)])
  note en = bioMapInv_entry[OF inv assms(5)]
  note grp = bioMapInv_group[OF inv en(1,2)]
  have "map_bq bq (bi_sector b) = None" if b: "b \<in> set (butlast (tl (biosMerged (h k))))" for b
  proof (rule ccontr)
    assume "map_bq bq (bi_sector b) \<noteq> None"
    then obtain k2 where e2: "map_bq bq (bi_sector b) = Some k2" by auto
    note en2 = bioMapInv_entry[OF inv e2]
    note grp2 = bioMapInv_group[OF inv en2(1,2)]
    have bl: "b \<in> set (biosMerged (h k))"
      using b grp(1) by (meson in_set_butlastD list.set_sel(2))
    show False
    proof (cases "k2 = k")
      case True
      then show ?thesis using interior_sector[OF grp(2) b] en2(3) by simp
    next
      case False
      have d: "set (map bi_sector (biosMerged (h k))) \<inter> set (map bi_sector (biosMerged (h k2))) = {}"
        by (rule bioMapInv_disjoint[OF inv en(1) en2(1) False[symmetric] en(2) en2(2)])
      have "hd (biosMerged (h k2)) \<in> set (biosMerged (h k2))" "last (biosMerged (h k2)) \<in> set (biosMerged (h k2))"
        using grp2(1) by simp_all
      then show ?thesis using disjoint_mapD[OF d bl] en2(3) by blast
    qed
  qed
  then show ?thesis using en(3) grp by simp
qed

theorem bioMap_boundary_keys_witness:
  "\<exists>h bq dev.
     runBioQueue 8 (idleDataStore, emptyBioQueue, [])
       [SubmitBio (dataBio 8 2) BIO_Q_ACTION_DATA (UDS_SUCCESS, UDS_SUCCESS),
        SubmitBio (dataBio 0 1) BIO_Q_ACTION_DATA (UDS_SUCCESS, UDS_SUCCESS),
        SubmitBio (dataBio 16 3) BIO_Q_ACTION_DATA (UDS_SUCCESS, UDS_SUCCESS)] = Some (h, bq, dev)
   \<and> map_bq bq 0 = Some 2
   \<and> map bi_sector (biosMerged (h 2)) = [0, 8, 16]
   \<and> map_bq bq 16 = Some 2
   \<and> map_bq bq 8 = None"
proof -
  let ?ops = "[SubmitBio (dataBio 8 2) BIO_Q_ACTION_DATA (UDS_SUCCESS, UDS_SUCCESS),
        SubmitBio (dataBio 0 1) BIO_Q_ACTION_DATA (UDS_SUCCESS, UDS_SUCCESS),
        SubmitBio (dataBio 16 3) BIO_Q_ACTION_DATA (UDS_SUCCESS, UDS_SUCCESS)]"
  let ?r = "runBioQueue 8 (idleDataStore, emptyBioQueue, []) ?ops"
  note defs = submitBioToQueue_def setupKVIO_def tryBioMapMerge_def getMergeableLocked_def
        mergeToPrevTail_def mergeToNextHead_def intMapGet_def intMapPut_def intMapRemove_def
        USE_BIOMAP_def UDS_SUCCESS_def idleDataStore_def emptyBioQueue_def dataBio_def Let_def
        pendingBios_def pendingDataBios_def
  have reg: "regularRun 8 (idleDataStore, emptyBioQueue, []) ?ops"
    by (simp add: defs)
  have key: "map_option (\<lambda>(h, bq, dev). (map_bq bq 0, map bi_sector (biosMerged (h 2)))) ?r
               = Some (Some 2, [0, 8, 16])"
    by (simp add: defs)
  then obtain h bq dev where run: "?r = Some (h, bq, dev)"
    and k0: "map_bq bq 0 = Some 2" and l: "map bi_sector (biosMerged (h 2)) = [0, 8, 16]"
    by (cases ?r) auto
  have e: "map_bq emptyBioQueue = Map.empty" "queue emptyBioQueue = []"
    by (simp_all add: emptyBioQueue_def)
  from bioMap_boundary_keys[OF e reg run k0]
  have "map_bq bq (bi_sector (last (biosMerged (h 2)))) = Some 2"
       "\<forall>b \<in> set (butlast (tl (biosMerged (h 2)))). map_bq bq (bi_sector b) = None"
    by simp_all
  moreover obtain b0 b1 b2 where bs: "biosMerged (h 2) = [b0, b1, b2]"
      "bi_sector b0 = 0" "bi_sector b1 = 8" "bi_sector b2 = 16"
    using l by (auto simp: map_eq_Cons_conv)
  ultimately have "map_bq bq 16 = Some 2" "map_bq bq 8 = None"
    by simp_all
  then show ?thesis
    using run k0 l by (intro exI[where x = h] exI[where x = bq] exI[where x = dev]) simp
qed


text \<open>
  C2 as stated fails in two ways. When a request arrives at the sector of a bio that
  is inside a pending run, it finds no candidate and is put into the map under its own
  sector: after requests at the sectors 0, 8, 16 and again 8, the map holds KVIO 1
  under 0, its run is 0, 8, 16, and the interior sector 8 is a key of the map. When
  the insertion of the new tail fails, the group stays in the map under its head
  alone: after requests at 0 and 8, the second with a failing last insertion, the map
  holds KVIO 1 under 0, its run is 0, 8, and the sector 8 of its tail is not a key.
\<close>

theorem bioMap_boundary_keys_counterexample:
  "map_option (\<lambda>(h, bq, dev). (map_bq bq 0, map bi_sector (biosMerged (h 1)), map_bq bq 8))
     (runBioQueue 8 (idleDataStore, emptyBioQueue, [])
        [SubmitBio (dataBio 0 1) BIO_Q_ACTION_DATA (UDS_SUCCESS, UDS_SUCCESS),
         SubmitBio (dataBio 8 2) BIO_Q_ACTION_DATA (UDS_SUCCESS, UDS_SUCCESS),
         SubmitBio (dataBio 16 3) BIO_Q_ACTION_DATA (UDS_SUCCESS, UDS_SUCCESS),
         SubmitBio (dataBio 8 4) BIO_Q_ACTION_DATA (UDS_SUCCESS, UDS_SUCCESS)])
     = Some (Some 1, [0, 8, 16], Some 4)
   \<and> map_option (\<lambda>(h, bq, dev). (map_bq bq 0, map bi_sector (biosMerged (h 1)), map_bq bq 8))
     (runBioQueue 8 (idleDataStore, emptyBioQueue, [])
        [SubmitBio (dataBio 0 1) BIO_Q_ACTION_DATA (UDS_SUCCESS, UDS_SUCCESS),
         SubmitBio (dataBio 8 2) BIO_Q_ACTION_DATA (UDS_SUCCESS, - 1)])
     = Some (Some 1, [0, 8], None)"
  by (simp add: submitBioToQueue_def setupKVIO_def tryBioMapMerge_def getMergeableLocked_def
        mergeToPrevTail_def mergeToNextHead_def intMapGet_def intMapPut_def intMapRemove_def
        USE_BIOMAP_def UDS_SUCCESS_def idleDataStore_def emptyBioQueue_def dataBio_def Let_def)


subsection \<open>The choice between the candidates\<close>

lemma mergeToPrevTail_store:
  "fst (mergeToPrevTail puts h bq kvio prev) =
     h(prev := (h prev)\<lparr>biosMerged := biosMerged (h prev) @ biosMerged (h kvio)\<rparr>)"
  by (simp add: mergeToPrevTail_def Let_def split: prod.splits)

lemma mergeToNextHead_store:
  "fst (mergeToNextHead puts h bq kvio next) =
     h(next := (h next)\<lparr>biosMerged := biosMerged (h kvio) @ biosMerged (h next)\<rparr>)"
  by (simp add: mergeToNextHead_def Let_def split: prod.splits)

lemma mergeToNextHead_frame:
  assumes "s \<noteq> bi_sector (hd (biosMerged (h next)))"
      and "s \<noteq> bi_sector (hd (biosMerged (h kvio) @ biosMerged (h next)))"
      and "s \<noteq> bi_sector (last (biosMerged (h kvio) @ biosMerged (h next)))"
  shows "map_bq (snd (mergeToNextHead puts h bq kvio next)) s = map_bq bq s"
  using assms
  by (simp add: mergeToNextHead_def intMapPut_def intMapRemove_def Let_def split: prod.splits)

lemma mergeToNextHead_keeps_prev:
  assumes inv: "bioMapInv h bq"
      and p: "getMergeableLocked spb h (map_bq bq) kvio ELEVATOR_BACK_MERGE = Some prev"
      and n: "getMergeableLocked spb h (map_bq bq) kvio ELEVATOR_FRONT_MERGE = Some next"
      and ne: "prev \<noteq> next"
      and fresh: "set (map bi_sector (biosMerged (h kvio))) \<inter> set (map bi_sector (biosMerged (h prev))) = {}"
      and s: "map_bq bq s = Some prev"
  shows "map_bq (snd (mergeToNextHead puts h bq kvio next)) s = Some prev"
proof -
  have mp: "map_bq bq (bi_sector (bioToSubmit (h kvio)) - spb) = Some prev"
    using p by (simp add: getMergeableLocked_back_iff intMapGet_def)
  have mn: "map_bq bq (bi_sector (bioToSubmit (h kvio)) + spb) = Some next"
    using n by (simp add: getMergeableLocked_front_iff intMapGet_def)
  note ep = bioMapInv_entry[OF inv mp] and en = bioMapInv_entry[OF inv mn]
  note gp = bioMapInv_group[OF inv ep(1,2)] and gn = bioMapInv_group[OF inv en(1,2)]
  have d: "set (map bi_sector (biosMerged (h next))) \<inter> set (map bi_sector (biosMerged (h prev))) = {}"
    by (rule bioMapInv_disjoint[OF inv en(1) ep(1) ne[symmetric] en(2) ep(2)])
  have sp: "s \<in> set (map bi_sector (biosMerged (h prev)))"
    using bioMapInv_entry(3)[OF inv s] gp(1) by auto
  have k1: "bi_sector (hd (biosMerged (h next))) \<in> set (map bi_sector (biosMerged (h next)))"
    using gn(1) by simp
  have k3: "bi_sector (last (biosMerged (h kvio) @ biosMerged (h next))) \<in> set (map bi_sector (biosMerged (h next)))"
    using gn(1) by simp
  have k2: "bi_sector (hd (biosMerged (h kvio) @ biosMerged (h next)))
              \<in> set (map bi_sector (biosMerged (h kvio))) \<union> set (map bi_sector (biosMerged (h next)))"
    using gn(1) by (cases "biosMerged (h kvio)") simp_all
  have n1: "s \<notin> set (map bi_sector (biosMerged (h next)))"
    using d sp by (meson disjoint_iff)
  have n2: "s \<notin> set (map bi_sector (biosMerged (h kvio)))"
    using fresh sp by (meson disjoint_iff)
  have "s \<noteq> bi_sector (hd (biosMerged (h next)))"
       "s \<noteq> bi_sector (hd (biosMerged (h kvio) @ biosMerged (h next)))"
       "s \<noteq> bi_sector (last (biosMerged (h kvio) @ biosMerged (h next)))"
    using n1 n2 k1 k2 k3 by (metis, metis UnE, metis)
  from mergeToNextHead_frame[OF this] s show ?thesis by simp
qed

text \<open>
  C4. When the lookup for a back merge and the lookup for a front merge return the same
  KVIO, \<open>tryBioMapMerge\<close> takes the branch that merges to the tail of that KVIO and
  reports a merge: the list of the request is appended to the list of the candidate,
  and no other KVIO changes. When the lookups return two different KVIOs, it takes the
  branch that merges to the head of the next one and reports a merge: the list of the
  request is put in front of the list of the next KVIO, no other KVIO changes (so the
  list of the previous one is as before), and the map changes at most at the sector of
  the old head, of the new head and of the tail of the next KVIO's list. In a state
  that satisfies the invariant of the map, where the request shares no sector with the
  previous KVIO's list, every key that held the previous KVIO still holds it.
\<close>

theorem tryBioMapMerge_candidates:
  "(getMergeableLocked spb h (map_bq bq) kvio ELEVATOR_BACK_MERGE = Some prev
    \<and> getMergeableLocked spb h (map_bq bq) kvio ELEVATOR_FRONT_MERGE = Some prev
    \<longrightarrow> tryBioMapMerge spb puts h bq kvio bio = (True, mergeToPrevTail puts h bq kvio prev)
      \<and> biosMerged (fst (mergeToPrevTail puts h bq kvio prev) prev)
          = biosMerged (h prev) @ biosMerged (h kvio)
      \<and> (\<forall>k. k \<noteq> prev \<longrightarrow> fst (mergeToPrevTail puts h bq kvio prev) k = h k))
   \<and> (getMergeableLocked spb h (map_bq bq) kvio ELEVATOR_BACK_MERGE = Some prev
    \<and> getMergeableLocked spb h (map_bq bq) kvio ELEVATOR_FRONT_MERGE = Some next
    \<and> prev \<noteq> next
    \<longrightarrow> tryBioMapMerge spb puts h bq kvio bio = (True, mergeToNextHead puts h bq kvio next)
      \<and> biosMerged (fst (mergeToNextHead puts h bq kvio next) next)
          = biosMerged (h kvio) @ biosMerged (h next)
      \<and> (\<forall>k. k \<noteq> next \<longrightarrow> fst (mergeToNextHead puts h bq kvio next) k = h k)
      \<and> (\<forall>s. s \<noteq> bi_sector (hd (biosMerged (h next)))
             \<and> s \<noteq> bi_sector (hd (biosMerged (h kvio) @ biosMerged (h next)))
             \<and> s \<noteq> bi_sector (last (biosMerged (h kvio) @ biosMerged (h next)))
             \<longrightarrow> map_bq (snd (mergeToNextHead puts h bq kvio next)) s = map_bq bq s)
      \<and> (bioMapInv h bq
           \<and> set (map bi_sector (biosMerged (h kvio)))
               \<inter> set (map bi_sector (biosMerged (h prev))) = {}
           \<longrightarrow> (\<forall>s. map_bq bq s = Some prev
                  \<longrightarrow> map_bq (snd (mergeToNextHead puts h bq kvio next)) s = Some prev)))"
proof (intro conjI impI)
  assume a: "getMergeableLocked spb h (map_bq bq) kvio ELEVATOR_BACK_MERGE = Some prev
    \<and> getMergeableLocked spb h (map_bq bq) kvio ELEVATOR_FRONT_MERGE = Some prev"
  show "tryBioMapMerge spb puts h bq kvio bio = (True, mergeToPrevTail puts h bq kvio prev)"
    using a by (intro tryBioMapMerge_back) simp_all
  show "biosMerged (fst (mergeToPrevTail puts h bq kvio prev) prev)
          = biosMerged (h prev) @ biosMerged (h kvio)"
    by (simp add: mergeToPrevTail_store)
  show "\<forall>k. k \<noteq> prev \<longrightarrow> fst (mergeToPrevTail puts h bq kvio prev) k = h k"
    by (simp add: mergeToPrevTail_store)
next
  assume a: "getMergeableLocked spb h (map_bq bq) kvio ELEVATOR_BACK_MERGE = Some prev
    \<and> getMergeableLocked spb h (map_bq bq) kvio ELEVATOR_FRONT_MERGE = Some next
    \<and> prev \<noteq> next"
  show "tryBioMapMerge spb puts h bq kvio bio = (True, mergeToNextHead puts h bq kvio next)"
    using a by (intro tryBioMapMerge_front) simp_all
  show "biosMerged (fst (mergeToNextHead puts h bq kvio next) next)
          = biosMerged (h kvio) @ biosMerged (h next)"
    by (simp add: mergeToNextHead_store)
  show "\<forall>k. k \<noteq> next \<longrightarrow> fst (mergeToNextHead puts h bq kvio next) k = h k"
    by (simp add: mergeToNextHead_store)
  show "\<forall>s. s \<noteq> bi_sector (hd (biosMerged (h next)))
             \<and> s \<noteq> bi_sector (hd (biosMerged (h kvio) @ biosMerged (h next)))
             \<and> s \<noteq> bi_sector (last (biosMerged (h kvio) @ biosMerged (h next)))
             \<longrightarrow> map_bq (snd (mergeToNextHead puts h bq kvio next)) s = map_bq bq s"
    using mergeToNextHead_frame by blast
  assume b: "bioMapInv h bq
           \<and> set (map bi_sector (biosMerged (h kvio)))
               \<inter> set (map bi_sector (biosMerged (h prev))) = {}"
  show "\<forall>s. map_bq bq s = Some prev
                  \<longrightarrow> map_bq (snd (mergeToNextHead puts h bq kvio next)) s = Some prev"
    using mergeToNextHead_keeps_prev[of h bq spb kvio prev "next"] a b by blast
qed

theorem tryBioMapMerge_candidates_witness:
  "tryBioMapMerge 8 (UDS_SUCCESS, UDS_SUCCESS)
      (idleDataStore(1 := (idleDataStore 1)\<lparr>bioToSubmit := dataBio 16 1,
                             biosMerged := [dataBio 16 1, dataBio 0 3]\<rparr>,
                     2 := (idleDataStore 2)\<lparr>bioToSubmit := dataBio 8 2,
                             biosMerged := [dataBio 8 2]\<rparr>))
      (emptyBioQueue\<lparr>queue := [1], map_bq := [0 \<mapsto> 1, 16 \<mapsto> 1]\<rparr>) 2 (dataBio 8 2)
    = (True, mergeToPrevTail (UDS_SUCCESS, UDS_SUCCESS)
      (idleDataStore(1 := (idleDataStore 1)\<lparr>bioToSubmit := dataBio 16 1,
                             biosMerged := [dataBio 16 1, dataBio 0 3]\<rparr>,
                     2 := (idleDataStore 2)\<lparr>bioToSubmit := dataBio 8 2,
                             biosMerged := [dataBio 8 2]\<rparr>))
      (emptyBioQueue\<lparr>queue := [1], map_bq := [0 \<mapsto> 1, 16 \<mapsto> 1]\<rparr>) 2 1)
   \<and> tryBioMapMerge 8 (UDS_SUCCESS, UDS_SUCCESS)
      (idleDataStore(1 := (idleDataStore 1)\<lparr>bioToSubmit := dataBio 0 1,
                             biosMerged := [dataBio 0 1]\<rparr>,
                     3 := (idleDataStore 3)\<lparr>bioToSubmit := dataBio 16 3,
                             biosMerged := [dataBio 16 3]\<rparr>,
                     2 := (idleDataStore 2)\<lparr>bioToSubmit := dataBio 8 2,
                             biosMerged := [dataBio 8 2]\<rparr>))
      (emptyBioQueue\<lparr>queue := [1, 3], map_bq := [0 \<mapsto> 1, 16 \<mapsto> 3]\<rparr>) 2 (dataBio 8 2)
    = (True, mergeToNextHead (UDS_SUCCESS, UDS_SUCCESS)
      (idleDataStore(1 := (idleDataStore 1)\<lparr>bioToSubmit := dataBio 0 1,
                             biosMerged := [dataBio 0 1]\<rparr>,
                     3 := (idleDataStore 3)\<lparr>bioToSubmit := dataBio 16 3,
                             biosMerged := [dataBio 16 3]\<rparr>,
                     2 := (idleDataStore 2)\<lparr>bioToSubmit := dataBio 8 2,
                             biosMerged := [dataBio 8 2]\<rparr>))
      (emptyBioQueue\<lparr>queue := [1, 3], map_bq := [0 \<mapsto> 1, 16 \<mapsto> 3]\<rparr>) 2 3)
   \<and> map_bq (snd (mergeToNextHead (UDS_SUCCESS, UDS_SUCCESS)
      (idleDataStore(1 := (idleDataStore 1)\<lparr>bioToSubmit := dataBio 0 1,
                             biosMerged := [dataBio 0 1]\<rparr>,
                     3 := (idleDataStore 3)\<lparr>bioToSubmit := dataBio 16 3,
                             biosMerged := [dataBio 16 3]\<rparr>,
                     2 := (idleDataStore 2)\<lparr>bioToSubmit := dataBio 8 2,
                             biosMerged := [dataBio 8 2]\<rparr>))
      (emptyBioQueue\<lparr>queue := [1, 3], map_bq := [0 \<mapsto> 1, 16 \<mapsto> 3]\<rparr>) 2 3)) 0 = Some 1"
proof -
  let ?h1 = "idleDataStore(1 := (idleDataStore 1)\<lparr>bioToSubmit := dataBio 16 1,
                             biosMerged := [dataBio 16 1, dataBio 0 3]\<rparr>,
                     2 := (idleDataStore 2)\<lparr>bioToSubmit := dataBio 8 2,
                             biosMerged := [dataBio 8 2]\<rparr>)"
  let ?bq1 = "emptyBioQueue\<lparr>queue := [1], map_bq := [0 \<mapsto> 1, 16 \<mapsto> 1]\<rparr>"
  let ?h2 = "idleDataStore(1 := (idleDataStore 1)\<lparr>bioToSubmit := dataBio 0 1,
                             biosMerged := [dataBio 0 1]\<rparr>,
                     3 := (idleDataStore 3)\<lparr>bioToSubmit := dataBio 16 3,
                             biosMerged := [dataBio 16 3]\<rparr>,
                     2 := (idleDataStore 2)\<lparr>bioToSubmit := dataBio 8 2,
                             biosMerged := [dataBio 8 2]\<rparr>)"
  let ?bq2 = "emptyBioQueue\<lparr>queue := [1, 3], map_bq := [0 \<mapsto> 1, 16 \<mapsto> 3]\<rparr>"
  note ev = getMergeableLocked_def intMapGet_def idleDataStore_def dataBio_def emptyBioQueue_def Let_def
  have g1: "getMergeableLocked 8 ?h1 (map_bq ?bq1) 2 ELEVATOR_BACK_MERGE = Some 1"
           "getMergeableLocked 8 ?h1 (map_bq ?bq1) 2 ELEVATOR_FRONT_MERGE = Some 1"
    by (simp_all add: ev)
  have g2: "getMergeableLocked 8 ?h2 (map_bq ?bq2) 2 ELEVATOR_BACK_MERGE = Some 1"
           "getMergeableLocked 8 ?h2 (map_bq ?bq2) 2 ELEVATOR_FRONT_MERGE = Some 3"
    by (simp_all add: ev)
  have inv: "bioMapInv ?h2 ?bq2"
    by (simp add: bioMapInv_def idleDataStore_def dataBio_def emptyBioQueue_def)
  have fr: "set (map bi_sector (biosMerged (?h2 2))) \<inter> set (map bi_sector (biosMerged (?h2 1))) = {}"
    by (simp add: dataBio_def)
  have m0: "map_bq ?bq2 0 = Some 1" by simp
  from tryBioMapMerge_candidates[of 8 ?h1 ?bq1 2 1 "(UDS_SUCCESS, UDS_SUCCESS)" "dataBio 8 2"] g1
  have A: "tryBioMapMerge 8 (UDS_SUCCESS, UDS_SUCCESS) ?h1 ?bq1 2 (dataBio 8 2)
             = (True, mergeToPrevTail (UDS_SUCCESS, UDS_SUCCESS) ?h1 ?bq1 2 1)"
    by simp
  from tryBioMapMerge_candidates[of 8 ?h2 ?bq2 2 1 "(UDS_SUCCESS, UDS_SUCCESS)" "dataBio 8 2" 3] g2 inv fr m0
  have B: "tryBioMapMerge 8 (UDS_SUCCESS, UDS_SUCCESS) ?h2 ?bq2 2 (dataBio 8 2)
             = (True, mergeToNextHead (UDS_SUCCESS, UDS_SUCCESS) ?h2 ?bq2 2 3)"
     and C: "map_bq (snd (mergeToNextHead (UDS_SUCCESS, UDS_SUCCESS) ?h2 ?bq2 2 3)) 0 = Some 1"
    by simp_all
  show ?thesis using A B C by simp
qed


section \<open>The entry point\<close>

lemma mergeToPrevTail_queue: "queue (snd (mergeToPrevTail puts h bq kvio prev)) = queue bq"
  by (simp add: mergeToPrevTail_def Let_def split: prod.splits)

lemma mergeToNextHead_queue: "queue (snd (mergeToNextHead puts h bq kvio next)) = queue bq"
  by (simp add: mergeToNextHead_def Let_def split: prod.splits)

lemma adjustSyncFlag_fields:
  "bi_private (adjustSyncFlag layer kvio bio) = bi_private bio"
  "bi_sector (adjustSyncFlag layer kvio bio) = bi_sector bio"
  "bi_rw (adjustSyncFlag layer kvio bio) = bi_rw bio"
  by (simp_all add: adjustSyncFlag_def)

lemma submitBioToQueue_outcome:
  fixes puts :: "int \<times> int" and bio :: BIO and h :: kvio_store and act :: BioQAction
    and spb :: sector_t and bq :: BioQueueData
  defines "k \<equiv> bi_private bio"
  defines "g \<equiv> setupKVIO h bio act"
  defines "prev \<equiv> getMergeableLocked spb g (map_bq bq) k ELEVATOR_BACK_MERGE"
  defines "nxt \<equiv> getMergeableLocked spb g (map_bq bq) k ELEVATOR_FRONT_MERGE"
  defines "merged \<equiv> isData (h k) \<and> (prev \<noteq> None \<or> nxt \<noteq> None)"
  defines "r \<equiv> submitBioToQueue spb puts h bq bio act"
  shows "merged \<Longrightarrow> queue (snd r) = queue bq
            \<and> (\<exists>p. (prev = Some p \<or> nxt = Some p) \<and> bio \<in> set (biosMerged (fst r p)))"
    and "\<not> merged \<Longrightarrow> queue (snd r) = queue bq @ [k] \<and> fst r = g
            \<and> map_bq (snd r) = (if isData (h k) \<and> fst puts = UDS_SUCCESS
                                 then (map_bq bq)(bi_sector bio \<mapsto> k) else map_bq bq)"
proof -
  have own: "biosMerged (g k) = [bio]" by (simp add: g_def k_def setupKVIO_own)
  { assume m: merged
    then have d: "isData (h (bi_private bio))" by (simp add: merged_def k_def)
    have rr: "r = (case tryBioMapMerge spb puts g bq k bio of
                    (mg, h2, bq2) \<Rightarrow> if mg then (h2, bq2) else (h2, bq2\<lparr>queue := queue bq2 @ [k]\<rparr>))"
      unfolding r_def g_def k_def
      by (rule submitBioToQueue_data[where h = h and bio = bio, OF d])
    consider (toPrev) p where "prev = Some p" "nxt = None \<or> nxt = Some p"
      | (toNext) n where "nxt = Some n" "prev \<noteq> Some n"
      using m by (cases prev; cases nxt) (auto simp: merged_def)
    then show "queue (snd r) = queue bq
            \<and> (\<exists>p. (prev = Some p \<or> nxt = Some p) \<and> bio \<in> set (biosMerged (fst r p)))"
    proof cases
      case toPrev
      have "tryBioMapMerge spb puts g bq k bio = (True, mergeToPrevTail puts g bq k p)"
        using toPrev by (intro tryBioMapMerge_back) (simp_all add: prev_def nxt_def)
      then have "r = mergeToPrevTail puts g bq k p" by (simp add: rr)
      then show ?thesis
        using toPrev(1) by (auto simp: mergeToPrevTail_queue mergeToPrevTail_store own)
    next
      case toNext
      have "tryBioMapMerge spb puts g bq k bio = (True, mergeToNextHead puts g bq k n)"
        using toNext by (intro tryBioMapMerge_front) (simp_all add: prev_def nxt_def)
      then have "r = mergeToNextHead puts g bq k n" by (simp add: rr)
      then show ?thesis
        using toNext(1) by (auto simp: mergeToNextHead_queue mergeToNextHead_store own)
    qed }
  { assume m: "\<not> merged"
    show "queue (snd r) = queue bq @ [k] \<and> fst r = g
            \<and> map_bq (snd r) = (if isData (h k) \<and> fst puts = UDS_SUCCESS
                                 then (map_bq bq)(bi_sector bio \<mapsto> k) else map_bq bq)"
    proof (cases "isData (h k)")
      case False
      then show ?thesis
        by (simp add: r_def k_def g_def submitBioToQueue_not_data)
    next
      case True
      then have pn: "prev = None" "nxt = None" using m by (simp_all add: merged_def)
      have "tryBioMapMerge spb puts g bq k bio =
           (False, g, bq\<lparr>map_bq := (if fst puts = UDS_SUCCESS
                                     then (map_bq bq)(bi_sector bio \<mapsto> k) else map_bq bq)\<rparr>)"
        using pn by (intro tryBioMapMerge_none) (simp_all add: prev_def nxt_def)
      then show ?thesis
        using True by (simp add: r_def submitBioToQueue_data k_def g_def)
    qed }
qed

text \<open>
  C8, as amended. On a submitter whose queue can be chosen (the 32-bit product of the number of
  queues and the rotation interval is not zero, and the array has that many elements),
  \<open>submitBio\<close> completes for every bio, every action and every pair of result codes
  of the map insertions; no other queue and not the device change. Either a merge
  candidate exists for a data KVIO: then the work queue of the chosen bio queue is
  unchanged and the bio is in the list of a candidate; or none exists (or the KVIO is
  not a data KVIO): then the KVIO is appended to the work queue, its list is the bio
  alone, \<open>tryBioMapMerge\<close> reports that it did not merge, and the map has the KVIO
  under the sector of the bio if the KVIO is a data KVIO and the insertion succeeded,
  and is unchanged otherwise. Exactly one of the two happens.
\<close>

theorem submitBio_merges_or_enqueues:
  assumes "numBioQueuesUsed (ioSubmitter layer) * bioQueueRotationInterval (ioSubmitter layer) \<noteq> 0"
      and "length (bioQueueData (ioSubmitter layer)) = unat (numBioQueuesUsed (ioSubmitter layer))"
  shows "\<exists>layer' n.
           submitBio spb puts layer bio act = Some layer'
         \<and> bioQueueDataForPBN (ioSubmitter layer) (physical (kvios layer (bi_private bio))) = Some n
         \<and> n < length (bioQueueData (ioSubmitter layer))
         \<and> length (bioQueueData (ioSubmitter layer')) = length (bioQueueData (ioSubmitter layer))
         \<and> (\<forall>i. i \<noteq> n \<longrightarrow>
               bioQueueData (ioSubmitter layer') ! i = bioQueueData (ioSubmitter layer) ! i)
         \<and> device layer' = device layer
         \<and> (let k = bi_private bio;
                 bq = bioQueueData (ioSubmitter layer) ! n;
                 bq' = bioQueueData (ioSubmitter layer') ! n;
                 bio1 = adjustSyncFlag layer (kvios layer k) bio;
                 g = setupKVIO (kvios layer) bio1 act;
                 prev = getMergeableLocked spb g (map_bq bq) k ELEVATOR_BACK_MERGE;
                 nxt = getMergeableLocked spb g (map_bq bq) k ELEVATOR_FRONT_MERGE;
                 merged = (isData (kvios layer k) \<and> (prev \<noteq> None \<or> nxt \<noteq> None))
             in (queue bq' = queue bq) = merged
              \<and> (queue bq' = queue bq @ [k]) = (\<not> merged)
              \<and> (merged \<longrightarrow>
                    (\<exists>p. (prev = Some p \<or> nxt = Some p)
                         \<and> bio1 \<in> set (biosMerged (kvios layer' p))))
              \<and> (\<not> merged \<longrightarrow>
                    kvios layer' = g
                  \<and> biosMerged (kvios layer' k) = [bio1]
                  \<and> map_bq bq' = (if isData (kvios layer k) \<and> fst puts = UDS_SUCCESS
                                   then (map_bq bq)(bi_sector bio \<mapsto> k) else map_bq bq)
                  \<and> (isData (kvios layer k) \<longrightarrow>
                        fst (tryBioMapMerge spb puts g bq k bio1) = False)))"
proof -
  let ?sub = "ioSubmitter layer"
  let ?k = "bi_private bio"
  obtain n where n: "bioQueueDataForPBN ?sub (physical (kvios layer ?k)) = Some n"
      "n < length (bioQueueData ?sub)"
  proof -
    obtain i where "bioQueueNumberForPBN ?sub (physical (kvios layer ?k)) = Some i"
                   "i < numBioQueuesUsed ?sub"
      using bioQueueNumberForPBN_unat[OF assms(1)] by blast
    then have "bioQueueDataForPBN ?sub (physical (kvios layer ?k)) = Some (unat i)"
              "unat i < length (bioQueueData ?sub)"
      using assms(2) by (simp_all add: bioQueueDataForPBN_def word_less_nat_alt)
    then show ?thesis using that by blast
  qed
  let ?bq = "bioQueueData ?sub ! n"
  let ?bio1 = "adjustSyncFlag layer (kvios layer ?k) bio"
  let ?g = "setupKVIO (kvios layer) ?bio1 act"
  let ?r = "submitBioToQueue spb puts (kvios layer) ?bq ?bio1 act"
  let ?layer' = "layer\<lparr>kvios := fst ?r,
                   ioSubmitter := ?sub\<lparr>bioQueueData := (bioQueueData ?sub)[n := snd ?r]\<rparr>\<rparr>"
  let ?prev = "getMergeableLocked spb ?g (map_bq ?bq) ?k ELEVATOR_BACK_MERGE"
  let ?nxt = "getMergeableLocked spb ?g (map_bq ?bq) ?k ELEVATOR_FRONT_MERGE"
  let ?merged = "isData (kvios layer ?k) \<and> (?prev \<noteq> None \<or> ?nxt \<noteq> None)"
  have sb: "submitBio spb puts layer bio act = Some ?layer'"
    by (simp add: submitBio_def n Let_def split: prod.splits)
  have q': "bioQueueData (ioSubmitter ?layer') ! n = snd ?r"
    using n(2) by simp
  note oc = submitBioToQueue_outcome[of "kvios layer" ?bio1 spb act ?bq puts,
              unfolded adjustSyncFlag_fields]
  have own: "biosMerged (?g ?k) = [?bio1]"
    using setupKVIO_own(1)[of "kvios layer" ?bio1 act] by (simp add: adjustSyncFlag_fields)
  have tm: "fst (tryBioMapMerge spb puts ?g ?bq ?k ?bio1) = False"
    if "\<not> ?merged" "isData (kvios layer ?k)"
  proof -
    have "?prev = None" "?nxt = None" using that by simp_all
    from tryBioMapMerge_none[OF this] show ?thesis by simp
  qed
  have main: "(queue (snd ?r) = queue ?bq) = ?merged
              \<and> (queue (snd ?r) = queue ?bq @ [?k]) = (\<not> ?merged)
              \<and> (?merged \<longrightarrow>
                    (\<exists>p. (?prev = Some p \<or> ?nxt = Some p)
                         \<and> ?bio1 \<in> set (biosMerged (fst ?r p))))
              \<and> (\<not> ?merged \<longrightarrow>
                    fst ?r = ?g
                  \<and> biosMerged (fst ?r ?k) = [?bio1]
                  \<and> map_bq (snd ?r) = (if isData (kvios layer ?k) \<and> fst puts = UDS_SUCCESS
                                   then (map_bq ?bq)(bi_sector bio \<mapsto> ?k) else map_bq ?bq)
                  \<and> (isData (kvios layer ?k) \<longrightarrow>
                        fst (tryBioMapMerge spb puts ?g ?bq ?k ?bio1) = False))"
  proof (cases ?merged)
    case True
    from oc(1)[OF True] True show ?thesis by simp
  next
    case False
    from oc(2)[OF False] False own tm show ?thesis by simp
  qed
  have kv: "kvios ?layer' = fst ?r" by simp
  have c2: "length (bioQueueData (ioSubmitter ?layer')) = length (bioQueueData ?sub)" by simp
  have c3: "\<forall>i. i \<noteq> n \<longrightarrow> bioQueueData (ioSubmitter ?layer') ! i = bioQueueData ?sub ! i"
    by simp
  have c4: "device ?layer' = device layer" by simp
  have c5: "let k = bi_private bio;
                 bq = bioQueueData (ioSubmitter layer) ! n;
                 bq' = bioQueueData (ioSubmitter ?layer') ! n;
                 bio1 = adjustSyncFlag layer (kvios layer k) bio;
                 g = setupKVIO (kvios layer) bio1 act;
                 prev = getMergeableLocked spb g (map_bq bq) k ELEVATOR_BACK_MERGE;
                 nxt = getMergeableLocked spb g (map_bq bq) k ELEVATOR_FRONT_MERGE;
                 merged = (isData (kvios layer k) \<and> (prev \<noteq> None \<or> nxt \<noteq> None))
             in (queue bq' = queue bq) = merged
              \<and> (queue bq' = queue bq @ [k]) = (\<not> merged)
              \<and> (merged \<longrightarrow>
                    (\<exists>p. (prev = Some p \<or> nxt = Some p)
                         \<and> bio1 \<in> set (biosMerged (kvios ?layer' p))))
              \<and> (\<not> merged \<longrightarrow>
                    kvios ?layer' = g
                  \<and> biosMerged (kvios ?layer' k) = [bio1]
                  \<and> map_bq bq' = (if isData (kvios layer k) \<and> fst puts = UDS_SUCCESS
                                   then (map_bq bq)(bi_sector bio \<mapsto> k) else map_bq bq)
                  \<and> (isData (kvios layer k) \<longrightarrow>
                        fst (tryBioMapMerge spb puts g bq k bio1) = False))"
    unfolding Let_def q' kv by (rule main)
  show ?thesis
    by (intro exI[where x = ?layer'] exI[where x = n] conjI sb n c2 c3 c4 c5)
qed


theorem submitBio_merges_or_enqueues_witness:
  "\<exists>layer'.
      submitBio 8 (- 1, - 1)
        \<lparr>kvios = idleDataStore,
         ioSubmitter = \<lparr>numBioQueuesUsed = 4, bioQueueRotationInterval = 8,
                         bioQueueRotor = 0, bioQueueData = freshBioQueues 4\<rparr>,
         mdRaid5ModeEnabled = False, device = []\<rparr>
        (dataBio 0 5) BIO_Q_ACTION_DATA = Some layer'
    \<and> queue (bioQueueData (ioSubmitter layer') ! 0) = [5]
    \<and> map_bq (bioQueueData (ioSubmitter layer') ! 0) = Map.empty
    \<and> biosMerged (kvios layer' 5) = [dataBio 0 5]"
proof -
  let ?sub = "\<lparr>numBioQueuesUsed = 4, bioQueueRotationInterval = 8,
                         bioQueueRotor = 0, bioQueueData = freshBioQueues 4\<rparr>"
  let ?L = "\<lparr>kvios = idleDataStore, ioSubmitter = ?sub,
         mdRaid5ModeEnabled = False, device = []\<rparr>"
  have wf: "numBioQueuesUsed (ioSubmitter ?L) * bioQueueRotationInterval (ioSubmitter ?L) \<noteq> 0"
       "length (bioQueueData (ioSubmitter ?L)) = unat (numBioQueuesUsed (ioSubmitter ?L))"
    by (simp_all add: freshBioQueues_def)
  have n0: "bioQueueDataForPBN (ioSubmitter ?L) (physical (kvios ?L (bi_private (dataBio 0 5)))) = Some 0"
    by (simp add: bioQueueDataForPBN_def bioQueueNumberForPBN_def idleDataStore_def
          freshBioQueues_def)
  have q0: "freshBioQueues 4 ! 0 = \<lparr>queue = [], map_bq = Map.empty, queueNumber = 0\<rparr>"
    by (simp add: freshBioQueues_def)
  have adj: "adjustSyncFlag ?L (idleDataStore 5) (dataBio 0 5) = dataBio 0 5"
    by (simp add: adjustSyncFlag_def)
  have dat: "isData (idleDataStore 5)" "bi_sector (dataBio 0 5) = 0"
    by (simp_all add: idleDataStore_def dataBio_def)
  have look: "getMergeableLocked 8 (setupKVIO idleDataStore (dataBio 0 5) BIO_Q_ACTION_DATA)
                Map.empty 5 ELEVATOR_BACK_MERGE = None"
             "getMergeableLocked 8 (setupKVIO idleDataStore (dataBio 0 5) BIO_Q_ACTION_DATA)
                Map.empty 5 ELEVATOR_FRONT_MERGE = None"
    by (simp_all add: getMergeableLocked_def intMapGet_def)
  from submitBio_merges_or_enqueues[OF wf, of 8 "(- 1, - 1)" "dataBio 0 5" BIO_Q_ACTION_DATA]
  obtain layer' n where
    r: "submitBio 8 (- 1, - 1) ?L (dataBio 0 5) BIO_Q_ACTION_DATA = Some layer'"
       "bioQueueDataForPBN (ioSubmitter ?L) (physical (kvios ?L (bi_private (dataBio 0 5)))) = Some n"
    and rest: "let k = bi_private (dataBio 0 5);
                 bq = bioQueueData (ioSubmitter ?L) ! n;
                 bq' = bioQueueData (ioSubmitter layer') ! n;
                 bio1 = adjustSyncFlag ?L (kvios ?L k) (dataBio 0 5);
                 g = setupKVIO (kvios ?L) bio1 BIO_Q_ACTION_DATA;
                 prev = getMergeableLocked 8 g (map_bq bq) k ELEVATOR_BACK_MERGE;
                 nxt = getMergeableLocked 8 g (map_bq bq) k ELEVATOR_FRONT_MERGE;
                 merged = (isData (kvios ?L k) \<and> (prev \<noteq> None \<or> nxt \<noteq> None))
             in (queue bq' = queue bq) = merged
              \<and> (queue bq' = queue bq @ [k]) = (\<not> merged)
              \<and> (merged \<longrightarrow>
                    (\<exists>p. (prev = Some p \<or> nxt = Some p)
                         \<and> bio1 \<in> set (biosMerged (kvios layer' p))))
              \<and> (\<not> merged \<longrightarrow>
                    kvios layer' = g
                  \<and> biosMerged (kvios layer' k) = [bio1]
                  \<and> map_bq bq' = (if isData (kvios ?L k) \<and> fst (- 1 :: int, - 1 :: int) = UDS_SUCCESS
                                   then (map_bq bq)(bi_sector (dataBio 0 5) \<mapsto> k) else map_bq bq)
                  \<and> (isData (kvios ?L k) \<longrightarrow>
                        fst (tryBioMapMerge 8 (- 1, - 1) g bq k bio1) = False))"
    by blast
  have n: "n = 0" using r(2) n0 by simp
  have own5: "biosMerged (setupKVIO idleDataStore (dataBio 0 5) BIO_Q_ACTION_DATA 5) = [dataBio 0 5]"
    by (simp add: setupKVIO_def dataBio_def)
  have pk: "bi_private (dataBio 0 5) = 5" by (simp add: dataBio_def)
  have "queue (bioQueueData (ioSubmitter layer') ! 0) = [5]
    \<and> map_bq (bioQueueData (ioSubmitter layer') ! 0) = Map.empty
    \<and> biosMerged (kvios layer' 5) = [dataBio 0 5]"
    using rest by (simp add: Let_def n pk adj q0 look dat own5 UDS_SUCCESS_def)
  then show ?thesis using r(1) by blast
qed

text \<open>
  C8 as stated fails on a submitter whose queue cannot be chosen: with a rotation
  interval of 0, or with 65536 queues and a rotation interval of 65536 (a 32-bit
  product of 0), \<open>bioQueueNumberForPBN\<close> divides by zero, and the request is neither
  merged nor enqueued.
\<close>

theorem submitBio_merges_or_enqueues_counterexample:
  "submitBio 8 (UDS_SUCCESS, UDS_SUCCESS)
     \<lparr>kvios = idleDataStore,
      ioSubmitter = \<lparr>numBioQueuesUsed = 4, bioQueueRotationInterval = 0, bioQueueRotor = 0,
                      bioQueueData = freshBioQueues 4\<rparr>,
      mdRaid5ModeEnabled = False, device = []\<rparr>
     (dataBio 800 5) BIO_Q_ACTION_DATA = None
   \<and> submitBio 8 (UDS_SUCCESS, UDS_SUCCESS)
     \<lparr>kvios = idleDataStore,
      ioSubmitter = \<lparr>numBioQueuesUsed = 65536, bioQueueRotationInterval = 65536,
                      bioQueueRotor = 0, bioQueueData = freshBioQueues 65536\<rparr>,
      mdRaid5ModeEnabled = False, device = []\<rparr>
     (dataBio 800 5) BIO_Q_ACTION_DATA = None"
  by (simp add: submitBio_def bioQueueDataForPBN_def bioQueueNumberForPBN_def)


section \<open>The rotor\<close>

subsection \<open>Counting below a bound\<close>

lemma countBelow_Suc: "countBelow P (Suc n) = countBelow P n + (if P n then 1 else 0)"
  by (simp add: countBelow_def)

lemma countBelow_periodic:
  assumes "\<And>x. P (x + M) = P x"
  shows "countBelow P (n + M) = countBelow P n + countBelow P M"
proof (induction n)
  case 0
  then show ?case by (simp add: countBelow_def)
next
  case (Suc n)
  have "countBelow P (Suc n + M) = countBelow P (Suc (n + M))" by simp
  also have "\<dots> = countBelow P (n + M) + (if P (n + M) then 1 else 0)" by (rule countBelow_Suc)
  also have "\<dots> = countBelow P n + countBelow P M + (if P n then 1 else 0)" using Suc assms by simp
  finally show ?case by (simp add: countBelow_Suc)
qed

lemma countBelow_periods:
  assumes "\<And>x. P (x + M) = P x"
  shows "countBelow P (a + M * k) = countBelow P a + countBelow P M * k"
proof (induction k)
  case 0
  then show ?case by simp
next
  case (Suc k)
  have "countBelow P (a + M * Suc k) = countBelow P ((a + M * k) + M)" by (simp add: algebra_simps)
  also have "\<dots> = countBelow P (a + M * k) + countBelow P M" using countBelow_periodic[where P = P and M = M and n = "a + M * k"] assms by blast
  finally show ?case using Suc by simp
qed

lemma countBelow_window:
  "length (filter (\<lambda>j. P (a + j)) [0..<n]) = countBelow P (a + n) - countBelow P a"
proof (induction n)
  case 0
  then show ?case by simp
next
  case (Suc n)
  have mono: "countBelow P a \<le> countBelow P (a + n)"
    by (induction n) (simp_all add: countBelow_Suc)
  show ?case using Suc mono by (simp add: countBelow_Suc)
qed

lemma countBelow_block:
  assumes "0 < R" "w < W"
  shows "countBelow (\<lambda>x. (x mod (W * R)) div R = w) (W * R) = R"
proof -
  have "{x. x < W * R \<and> (x mod (W * R)) div R = w} = {w * R ..< w * R + R}"
  proof (rule set_eqI)
    fix x
    have le: "w * R + R \<le> W * R"
      using assms(2) by (metis Suc_leI mult_Suc mult_le_mono1 add.commute)
    show "x \<in> {x. x < W * R \<and> (x mod (W * R)) div R = w} \<longleftrightarrow> x \<in> {w * R ..< w * R + R}"
    proof
      assume "x \<in> {x. x < W * R \<and> (x mod (W * R)) div R = w}"
      then have "x div R = w" by auto
      then show "x \<in> {w * R ..< w * R + R}"
        using assms(1)
        by (metis add.commute atLeastLessThan_iff div_times_less_eq_dividend
            dividend_less_div_times)
    next
      assume a: "x \<in> {w * R ..< w * R + R}"
      then have "x < W * R" using le by simp
      moreover have "x div R = w"
        using a by (intro div_nat_eqI) (simp_all add: mult.commute)
      ultimately show "x \<in> {x. x < W * R \<and> (x mod (W * R)) div R = w}" by simp
    qed
  qed
  moreover have "countBelow (\<lambda>x. (x mod (W * R)) div R = w) (W * R)
          = card {x. x < W * R \<and> (x mod (W * R)) div R = w}"
  proof -
    have "{i. i < length [0..<W * R] \<and> ([0..<W * R] ! i) mod (W * R) div R = w}
            = {x. x < W * R \<and> (x mod (W * R)) div R = w}"
      by auto
    then show ?thesis
      unfolding countBelow_def length_filter_conv_card by simp
  qed
  ultimately show ?thesis by simp
qed


lemma rotor_unat_add:
  fixes r :: "32 word"
  assumes "unat r + j < 2 ^ 32 \<or> M dvd (2 ^ 32 :: nat)"
  shows "unat (r + of_nat j) mod M = (unat r + j) mod M"
proof -
  have u: "unat (r + of_nat j) = (unat r + j) mod 2 ^ 32"
    by (simp add: unat_word_ariths unat_of_nat mod_add_right_eq)
  from assms show ?thesis
  proof
    assume "unat r + j < 2 ^ 32"
    then show ?thesis by (simp add: u)
  next
    assume "M dvd (2 ^ 32 :: nat)"
    then show ?thesis by (simp add: u mod_mod_cancel)
  qed
qed

lemma enqueueBioWorkItem_step:
  assumes nz: "numBioQueuesUsed s * bioQueueRotationInterval s \<noteq> 0"
      and len: "length (bioQueueData s) = unat (numBioQueuesUsed s)"
  shows "\<exists>i s1. enqueueBioWorkItem s item = Some (i, s1)
           \<and> i = (bioQueueRotor s mod (numBioQueuesUsed s * bioQueueRotationInterval s))
                   div bioQueueRotationInterval s
           \<and> i < numBioQueuesUsed s
           \<and> bioQueueRotor s1 = bioQueueRotor s + 1
           \<and> numBioQueuesUsed s1 = numBioQueuesUsed s
           \<and> bioQueueRotationInterval s1 = bioQueueRotationInterval s
           \<and> length (bioQueueData s1) = length (bioQueueData s)"
proof -
  obtain i where i: "fst (advanceBioRotor s) = Some i" "i < numBioQueuesUsed s"
    using advanceBioRotor_unat[OF nz] by blast
  have R0: "bioQueueRotationInterval s \<noteq> 0" using nz by auto
  have adv: "advanceBioRotor s =
       (Some ((bioQueueRotor s mod (numBioQueuesUsed s * bioQueueRotationInterval s))
                div bioQueueRotationInterval s),
        s\<lparr>bioQueueRotor := bioQueueRotor s + 1\<rparr>)"
    using nz R0 by (simp add: advanceBioRotor_def Let_def)
  have ieq: "i = (bioQueueRotor s mod (numBioQueuesUsed s * bioQueueRotationInterval s))
                   div bioQueueRotationInterval s"
    using i(1) adv by simp
  have "unat i < length (bioQueueData s)"
    using i(2) len by (simp add: word_less_nat_alt)
  then show ?thesis
    using adv ieq i(2) by (simp add: enqueueBioWorkItem_def)
qed

lemma enqueueBioWorkItems_run:
  assumes "numBioQueuesUsed s * bioQueueRotationInterval s \<noteq> 0"
      and "length (bioQueueData s) = unat (numBioQueuesUsed s)"
  shows "\<exists>indices s1. enqueueBioWorkItems s items = Some (indices, s1)
           \<and> length indices = length items
           \<and> (\<forall>j < length items.
                 indices ! j =
                   ((bioQueueRotor s + of_nat j)
                      mod (numBioQueuesUsed s * bioQueueRotationInterval s))
                   div bioQueueRotationInterval s)
           \<and> bioQueueRotor s1 = bioQueueRotor s + of_nat (length items)
           \<and> numBioQueuesUsed s1 = numBioQueuesUsed s
           \<and> bioQueueRotationInterval s1 = bioQueueRotationInterval s
           \<and> length (bioQueueData s1) = length (bioQueueData s)"
  using assms
proof (induction items arbitrary: s)
  case Nil
  then show ?case by simp
next
  case (Cons item items)
  obtain i s1 where st: "enqueueBioWorkItem s item = Some (i, s1)"
      "i = (bioQueueRotor s mod (numBioQueuesUsed s * bioQueueRotationInterval s))
             div bioQueueRotationInterval s"
      "bioQueueRotor s1 = bioQueueRotor s + 1"
      "numBioQueuesUsed s1 = numBioQueuesUsed s"
      "bioQueueRotationInterval s1 = bioQueueRotationInterval s"
      "length (bioQueueData s1) = length (bioQueueData s)"
    using enqueueBioWorkItem_step[OF Cons.prems, of item] by blast
  have wf1: "numBioQueuesUsed s1 * bioQueueRotationInterval s1 \<noteq> 0"
            "length (bioQueueData s1) = unat (numBioQueuesUsed s1)"
    using Cons.prems st by simp_all
  obtain indices s2 where r: "enqueueBioWorkItems s1 items = Some (indices, s2)"
      "length indices = length items"
      "\<forall>j < length items.
                 indices ! j =
                   ((bioQueueRotor s1 + of_nat j)
                      mod (numBioQueuesUsed s1 * bioQueueRotationInterval s1))
                   div bioQueueRotationInterval s1"
      "bioQueueRotor s2 = bioQueueRotor s1 + of_nat (length items)"
      "numBioQueuesUsed s2 = numBioQueuesUsed s1"
      "bioQueueRotationInterval s2 = bioQueueRotationInterval s1"
      "length (bioQueueData s2) = length (bioQueueData s1)"
    using Cons.IH[OF wf1] by blast
  have idx: "(i # indices) ! j =
                   ((bioQueueRotor s + of_nat j)
                      mod (numBioQueuesUsed s * bioQueueRotationInterval s))
                   div bioQueueRotationInterval s" if "j < length (item # items)" for j
  proof (cases j)
    case 0
    then show ?thesis using st(2) by simp
  next
    case (Suc j')
    then have "j' < length items" using that by simp
    have e: "bioQueueRotor s1 + of_nat j' = bioQueueRotor s + of_nat j"
      using st(3) Suc by (simp add: ac_simps)
    have "(i # indices) ! j = indices ! j'" using Suc by simp
    also have "\<dots> = ((bioQueueRotor s1 + of_nat j')
                      mod (numBioQueuesUsed s1 * bioQueueRotationInterval s1))
                   div bioQueueRotationInterval s1"
      using r(3) \<open>j' < length items\<close> by blast
    also have "\<dots> = ((bioQueueRotor s + of_nat j)
                      mod (numBioQueuesUsed s * bioQueueRotationInterval s))
                   div bioQueueRotationInterval s"
      by (simp only: e st(4,5))
    finally show ?thesis .
  qed
  show ?case
    apply (rule exI[where x = "i # indices"])
    apply (rule exI[where x = s2])
    using st r idx by (simp add: ac_simps)
qed


lemma count_list_nth:
  "count_list xs x = length (filter (\<lambda>j. xs ! j = x) [0..<length xs])"
proof (induction xs rule: rev_induct)
  case Nil
  then show ?case by simp
next
  case (snoc y xs)
  have "filter (\<lambda>j. (xs @ [y]) ! j = x) [0..<length xs] = filter (\<lambda>j. xs ! j = x) [0..<length xs]"
    by (rule filter_cong) (simp_all add: nth_append)
  then show ?case using snoc by simp
qed

text \<open>
  C6, as amended. On a submitter with at least one queue and a rotation interval of at
  least one whose product fits in 32 bits, \<open>W * R * k\<close> successive calls of
  \<open>enqueueBioWorkItem\<close> all choose a queue; the rotor advances by one per call; the
  \<open>j\<close>-th call chooses the queue \<open>((rotor + j) mod (W * R)) div R\<close>; and every queue
  is chosen exactly \<open>R * k\<close> times, provided that the 32-bit rotor does not wrap around
  during the calls or that \<open>W * R\<close> divides \<open>2^32\<close>. This holds for every \<open>k\<close>,
  also for \<open>k = 0\<close>.
\<close>

theorem rotor_fairness:
  assumes W1: "1 \<le> numBioQueuesUsed s" and R1: "1 \<le> bioQueueRotationInterval s"
      and fit: "unat (numBioQueuesUsed s) * unat (bioQueueRotationInterval s) < 2 ^ 32"
      and len: "length (bioQueueData s) = unat (numBioQueuesUsed s)"
      and n: "length items
                = unat (numBioQueuesUsed s) * unat (bioQueueRotationInterval s) * k"
      and nowrap: "unat (bioQueueRotor s) + length items \<le> 2 ^ 32
                   \<or> (unat (numBioQueuesUsed s) * unat (bioQueueRotationInterval s))
                        dvd (2 ^ 32 :: nat)"
  shows "\<exists>indices s1.
           enqueueBioWorkItems s items = Some (indices, s1)
         \<and> length indices = length items
         \<and> (\<forall>j < length items.
               unat (indices ! j) =
                 ((unat (bioQueueRotor s) + j)
                    mod (unat (numBioQueuesUsed s) * unat (bioQueueRotationInterval s)))
                 div unat (bioQueueRotationInterval s))
         \<and> bioQueueRotor s1 = bioQueueRotor s + of_nat (length items)
         \<and> (\<forall>w. w < numBioQueuesUsed s \<longrightarrow>
               count_list indices w = unat (bioQueueRotationInterval s) * k)"
proof -
  let ?W = "numBioQueuesUsed s" and ?R = "bioQueueRotationInterval s" and ?r = "bioQueueRotor s"
  let ?M = "unat ?W * unat ?R"
  have nz: "?W * ?R \<noteq> 0" by (rule modulus_nonzero[OF W1 R1 fit])
  have M: "unat (?W * ?R) = ?M" by (rule unat_mult_exact[OF fit])
  have Rpos: "0 < unat ?R" using R1 by (simp add: word_le_nat_alt)
  obtain indices s1 where run: "enqueueBioWorkItems s items = Some (indices, s1)"
      "length indices = length items"
      "\<forall>j < length items. indices ! j = ((?r + of_nat j) mod (?W * ?R)) div ?R"
      "bioQueueRotor s1 = ?r + of_nat (length items)"
    using enqueueBioWorkItems_run[OF nz len, of items] by blast
  have idx: "unat (indices ! j) = ((unat ?r + j) mod ?M) div unat ?R" if j: "j < length items" for j
  proof -
    have "unat ?r + j < 2 ^ 32 \<or> ?M dvd (2 ^ 32 :: nat)"
      using nowrap j by auto
    from rotor_unat_add[OF this]
    have "unat (?r + of_nat j) mod ?M = (unat ?r + j) mod ?M" .
    moreover have "unat (indices ! j) = (unat (?r + of_nat j) mod ?M) div unat ?R"
      using run(3) j by (simp add: unat_div unat_mod M)
    ultimately show ?thesis by simp
  qed
  have cnt: "count_list indices w = unat ?R * k" if w: "w < ?W" for w
  proof -
    let ?P = "\<lambda>x. (x mod ?M) div unat ?R = unat w"
    have per: "\<And>x. ?P (x + ?M) = ?P x" by simp
    have wn: "unat w < unat ?W" using w by (simp add: word_less_nat_alt)
    have "count_list indices w = length (filter (\<lambda>j. indices ! j = w) [0..<length indices])"
      by (rule count_list_nth)
    also have "\<dots> = length (filter (\<lambda>j. ?P (unat ?r + j)) [0..<length items])"
    proof -
      have "filter (\<lambda>j. indices ! j = w) [0..<length items]
              = filter (\<lambda>j. ?P (unat ?r + j)) [0..<length items]"
      proof (rule filter_cong[OF refl])
        fix j assume "j \<in> set [0..<length items]"
        then have j: "j < length items" by simp
        show "(indices ! j = w) = ?P (unat ?r + j)"
          using idx[OF j] by (metis word_unat_eq_iff)
      qed
      then show ?thesis by (simp add: run(2))
    qed
    also have "\<dots> = countBelow ?P (unat ?r + length items) - countBelow ?P (unat ?r)"
      by (rule countBelow_window)
    also have "\<dots> = countBelow ?P ?M * k"
      using countBelow_periods[where P = ?P and M = ?M and a = "unat ?r" and k = k] per
      by (simp add: n)
    also have "countBelow ?P ?M = unat ?R"
      by (rule countBelow_block[OF Rpos wn])
    finally show ?thesis .
  qed
  show ?thesis
    using run(1,2,4) idx cnt
    by (intro exI[where x = indices] exI[where x = s1]) simp
qed

text \<open>
  C6 as stated fails where the 32-bit rotor wraps around and \<open>W * R\<close> does not divide
  \<open>2^32\<close>: with 3 queues, a rotation interval of 1 and the rotor at \<open>2^32 - 2\<close>,
  three successive calls choose the queues 2, 0 and 0 (the rotor values \<open>2^32 - 2\<close>,
  \<open>2^32 - 1\<close> and 0 reduced modulo 3), so queue 1 is not chosen at all and queue 0
  is chosen twice.
\<close>

theorem rotor_fairness_counterexample:
  "map_option fst
     (enqueueBioWorkItems
        \<lparr>numBioQueuesUsed = 3, bioQueueRotationInterval = 1, bioQueueRotor = 4294967294,
         bioQueueData = freshBioQueues 3\<rparr> [10, 11, 12])
     = Some [2, 0, 0]
   \<and> count_list [2, 0, 0 :: 32 word] 1 = 0"
  by (simp add: enqueueBioWorkItem_def advanceBioRotor_def freshBioQueues_def Let_def
        upt_rec[of 0] upt_rec[of 1] upt_rec[of 2] upt_rec[of 3])

text \<open>
  With 2 queues and a rotation interval of 2 the product divides \<open>2^32\<close>: four calls
  that start with the rotor at \<open>2^32 - 2\<close> wrap it around to 2 and choose each queue twice.
\<close>

theorem rotor_fairness_witness:
  "\<exists>indices s1.
      enqueueBioWorkItems
        \<lparr>numBioQueuesUsed = 2, bioQueueRotationInterval = 2, bioQueueRotor = 4294967294,
         bioQueueData = freshBioQueues 2\<rparr> [10, 11, 12, 13] = Some (indices, s1)
    \<and> bioQueueRotor s1 = 2
    \<and> count_list indices 0 = 2 \<and> count_list indices 1 = 2"
proof -
  let ?s = "\<lparr>numBioQueuesUsed = 2, bioQueueRotationInterval = 2, bioQueueRotor = 4294967294,
         bioQueueData = freshBioQueues 2\<rparr>"
  have d: "(4 :: nat) dvd 2 ^ 32"
  proof -
    have "(2 :: nat) ^ 32 = 4 * 2 ^ 30" by simp
    then show ?thesis by (simp only: dvd_triv_left)
  qed
  from rotor_fairness[of ?s "[10, 11, 12, 13]" 1] d
  obtain indices s1 where r: "enqueueBioWorkItems ?s [10, 11, 12, 13] = Some (indices, s1)"
     "bioQueueRotor s1 = bioQueueRotor ?s + of_nat (length [10 :: nat, 11, 12, 13])"
     "\<forall>w. w < numBioQueuesUsed ?s \<longrightarrow> count_list indices w = unat (bioQueueRotationInterval ?s) * 1"
    by (auto simp: freshBioQueues_def)
  have "count_list indices 0 = 2" "count_list indices 1 = 2"
    using r(3) by simp_all
  moreover have "bioQueueRotor s1 = 2" using r(2) by simp
  ultimately show ?thesis using r(1)
    by (intro exI[where x = indices] exI[where x = s1]) simp
qed


section \<open>Building the submitter\<close>





lemma finishWorkQueue_null:
  "queuePtr q = None \<Longrightarrow> finishWorkQueue q = q"
  by (simp add: finishWorkQueue_def)




















end
